theory Spec2Isabelle
  imports Complex_Main "HOL-Library.Sublist" "HOL-Library.Log_Nat" "HOL-Library.AList"
begin

section \<open>Python strings\<close>

text \<open>
  A Python \<open>str\<close> is a sequence of Unicode code points, so a string is modelled as the
  list of its code points: \<open>length\<close> and \<open>take\<close> count code points, as \<open>len\<close> and
  slicing do. The literals of the source are written by their code points.
\<close>

type_synonym ustr = "nat list"

definition ascii :: "string \<Rightarrow> ustr" where
  "ascii s = map of_char s"

text \<open>\<open>str.isspace\<close>: the code points that \<open>str.strip()\<close> removes at both ends.\<close>

definition is_space :: "nat \<Rightarrow> bool" where
  "is_space c \<longleftrightarrow> c \<in> set [0x9, 0xA, 0xB, 0xC, 0xD, 0x1C, 0x1D, 0x1E, 0x1F, 0x20, 0x85, 0xA0,
     0x1680, 0x2000, 0x2001, 0x2002, 0x2003, 0x2004, 0x2005, 0x2006, 0x2007, 0x2008, 0x2009,
     0x200A, 0x2028, 0x2029, 0x202F, 0x205F, 0x3000]"

definition strip :: "ustr \<Rightarrow> ustr" where
  "strip s = rev (dropWhile is_space (rev (dropWhile is_space s)))"

text \<open>The line boundaries of \<open>str.splitlines()\<close>; CR LF counts as one boundary.\<close>

definition is_linebreak :: "nat \<Rightarrow> bool" where
  "is_linebreak c \<longleftrightarrow> c \<in> set [0xA, 0xB, 0xC, 0xD, 0x1C, 0x1D, 0x1E, 0x85, 0x2028, 0x2029]"

fun splitlines_from :: "ustr \<Rightarrow> ustr \<Rightarrow> ustr list" where
  "splitlines_from cur [] = (if cur = [] then [] else [cur])"
| "splitlines_from cur [c] = (if is_linebreak c then [cur] else [cur @ [c]])"
| "splitlines_from cur (c # d # s) =
     (if c = 0xD \<and> d = 0xA then cur # splitlines_from [] s
      else if is_linebreak c then cur # splitlines_from [] (d # s)
      else splitlines_from (cur @ [c]) (d # s))"

definition splitlines :: "ustr \<Rightarrow> ustr list" where
  "splitlines s = splitlines_from [] s"

text \<open>\<open>sub in s\<close>: \<open>sub\<close> occurs in \<open>s\<close> as a contiguous substring.\<close>

fun contains :: "ustr \<Rightarrow> ustr \<Rightarrow> bool" where
  "contains sub [] = (sub = [])"
| "contains sub (c # s) = (prefix sub (c # s) \<or> contains sub s)"

text \<open>
  \<open>s.split(sep, 1)\<close> when \<open>sep\<close> occurs in \<open>s\<close>: the text before the first occurrence
  and the text after it; \<open>None\<close> when \<open>sep\<close> does not occur.
\<close>

fun split_once :: "ustr \<Rightarrow> ustr \<Rightarrow> (ustr \<times> ustr) option" where
  "split_once sep [] = (if sep = [] then Some ([], []) else None)"
| "split_once sep (c # s) =
     (if prefix sep (c # s) then Some ([], drop (length sep) (c # s))
      else map_option (\<lambda>(a, b). (c # a, b)) (split_once sep s))"

text \<open>
  The decimal digits of Unicode (general category Nd, Unicode 14.0): \<open>\d\<close> in a \<open>str\<close>
  pattern matches exactly these, and \<open>int\<close> and \<open>float\<close> read them by their digit value.
  They come in runs of ten, listed here by the code point of each run's zero.
\<close>

definition nd_zeros :: "nat list" where
  "nd_zeros = [0x30, 0x660, 0x6F0, 0x7C0, 0x966, 0x9E6, 0xA66, 0xAE6, 0xB66, 0xBE6, 0xC66,
     0xCE6, 0xD66, 0xDE6, 0xE50, 0xED0, 0xF20, 0x1040, 0x1090, 0x17E0, 0x1810, 0x1946, 0x19D0,
     0x1A80, 0x1A90, 0x1B50, 0x1BB0, 0x1C40, 0x1C50, 0xA620, 0xA8D0, 0xA900, 0xA9D0, 0xA9F0,
     0xAA50, 0xABF0, 0xFF10, 0x104A0, 0x10D30, 0x11066, 0x110F0, 0x11136, 0x111D0, 0x112F0,
     0x11450, 0x114D0, 0x11650, 0x116C0, 0x11730, 0x118E0, 0x11950, 0x11C50, 0x11D50, 0x11DA0,
     0x16A60, 0x16AC0, 0x16B50, 0x1D7CE, 0x1D7D8, 0x1D7E2, 0x1D7EC, 0x1D7F6, 0x1E140, 0x1E2F0,
     0x1E950, 0x1FBF0]"

definition digit_val :: "nat \<Rightarrow> nat option" where
  "digit_val c = map_option (\<lambda>z. c - z) (find (\<lambda>z. z \<le> c \<and> c < z + 10) nd_zeros)"

definition is_digit :: "nat \<Rightarrow> bool" where
  "is_digit c \<longleftrightarrow> digit_val c \<noteq> None"

text \<open>The value of a digit string read in base ten (most significant digit first).\<close>

definition digits_val :: "ustr \<Rightarrow> nat" where
  "digits_val s = foldl (\<lambda>acc c. 10 * acc + the (digit_val c)) 0 s"

section \<open>Exceptions and numbers\<close>

datatype error = ValueError | StopIteration

text \<open>
  The interpreter's limit on the number of digits that \<open>int\<close> reads from a string,
  \<open>sys.get_int_max_str_digits()\<close>: 4300 unless it is changed, and the source never
  changes it. Every digit counts, a leading zero too.
\<close>

definition int_max_str_digits :: nat where
  "int_max_str_digits = 4300"

text \<open>
  \<open>int(s)\<close> on the tokens that \<open>\d\<close> and \<open>\d+\<close> capture: a non-empty string of decimal
  digits is read in base ten, unless it has more digits than the limit, on which
  \<open>int\<close> raises \<open>ValueError\<close>; anything else (the patterns pass no such token) is a
  \<open>ValueError\<close> as well. \<open>float\<close> has no such limit.
\<close>

definition py_int :: "ustr \<Rightarrow> error + int" where
  "py_int s =
     (if s \<noteq> [] \<and> list_all is_digit s then
        if int_max_str_digits < length s then Inl ValueError
        else Inr (int (digits_val s))
      else Inl ValueError)"

text \<open>
  A Python \<open>float\<close> is an IEEE 754 binary64 number. The values that arise here are never
  negative and never NaN, so a float is a non-negative finite double, kept as the rational
  it denotes, or positive infinity.
\<close>

datatype pyfloat = Finite rat | Infinity

definition pow2 :: "int \<Rightarrow> rat" where
  "pow2 e = (if 0 \<le> e then 2 ^ nat e else 1 / 2 ^ nat (- e))"

text \<open>
  For \<open>q > 0\<close>, the integer \<open>k\<close> with \<open>2^k \<le> q < 2^(k+1)\<close>: one less than the
  bit length of the integer part from \<open>1\<close> on, and below \<open>1\<close> the negated least \<open>k\<close>
  with \<open>1 / q \<le> 2^k\<close>.
\<close>

definition ilog2 :: "rat \<Rightarrow> int" where
  "ilog2 q = (if 1 \<le> q then bitlen \<lfloor>q\<rfloor> - 1 else - bitlen (\<lceil>1 / q\<rceil> - 1))"

definition round_half_even :: "rat \<Rightarrow> int" where
  "round_half_even q =
     (let f = \<lfloor>q\<rfloor>; d = q - of_int f
      in if d < 1 / 2 then f else if 1 / 2 < d then f + 1 else if even f then f else f + 1)"

text \<open>
  Rounding a non-negative rational to binary64, to nearest with ties to even: 53 bits of
  significand, the exponent of the last bit no smaller than \<open>-1074\<close> (subnormal numbers),
  and infinity from \<open>2^1024\<close> on.
\<close>

definition round_double :: "rat \<Rightarrow> pyfloat" where
  "round_double q =
     (if q \<le> 0 then Finite 0
      else let e = max (ilog2 q - 52) (- 1074);
               v = of_int (round_half_even (q / pow2 e)) * pow2 e
           in if pow2 1024 \<le> v then Infinity else Finite v)"

text \<open>The float division \<open>x / y\<close> for a finite \<open>y > 0\<close>: the quotient, correctly rounded.\<close>

fun fdiv :: "pyfloat \<Rightarrow> rat \<Rightarrow> pyfloat" where
  "fdiv (Finite q) y = round_double (q / y)"
| "fdiv Infinity y = Infinity"

text \<open>
  \<open>float(s)\<close> on the tokens that \<open>[\d.]+\<close> captures, which hold decimal digits and full
  stops only: the token is a float literal when it has at most one full stop and at least
  one digit, and its value is the decimal it writes, correctly rounded; otherwise
  \<open>float\<close> raises \<open>ValueError\<close>.
\<close>

definition py_float :: "ustr \<Rightarrow> error + pyfloat" where
  "py_float s =
     (let ip = takeWhile is_digit s; r = dropWhile is_digit s
      in case r of
           [] \<Rightarrow> if ip = [] then Inl ValueError
                 else Inr (round_double (of_nat (digits_val ip)))
         | c # fp \<Rightarrow>
             if c = 0x2E \<and> list_all is_digit fp \<and> (ip \<noteq> [] \<or> fp \<noteq> [])
             then Inr (round_double (of_nat (digits_val (ip @ fp)) / 10 ^ length fp))
             else Inl ValueError)"

section \<open>Regular expressions\<close>

text \<open>
  A pattern is run the way the backtracking engine of \<open>re\<close> runs it: a matcher maps the
  input to the list of all ways it can match a prefix of it, each with the text matched
  and the input that remains, in the order in which the engine tries them. A sequence of
  matchers is the list of all combinations in that order, and the engine's match is the
  first one.
\<close>

type_synonym matcher = "ustr \<Rightarrow> (ustr \<times> ustr) list"

definition lit :: "ustr \<Rightarrow> matcher" where
  "lit p s = (if prefix p s then [(p, drop (length p) s)] else [])"

definition one :: "(nat \<Rightarrow> bool) \<Rightarrow> matcher" where
  "one P s = (case s of [] \<Rightarrow> [] | c # r \<Rightarrow> if P c then [([c], r)] else [])"

text \<open>\<open>X+?\<close> for a one-character class \<open>X\<close>: one character first, then ever more.\<close>

definition plus_lazy :: "(nat \<Rightarrow> bool) \<Rightarrow> matcher" where
  "plus_lazy P s = map (\<lambda>n. (take n s, drop n s)) [1..<Suc (length (takeWhile P s))]"

text \<open>\<open>X+\<close>: as many characters as possible first, then ever fewer, down to one.\<close>

definition plus_greedy :: "(nat \<Rightarrow> bool) \<Rightarrow> matcher" where
  "plus_greedy P s = rev (plus_lazy P s)"

text \<open>\<open>X*?\<close>: no character first, then ever more.\<close>

definition star_lazy :: "(nat \<Rightarrow> bool) \<Rightarrow> matcher" where
  "star_lazy P s = map (\<lambda>n. (take n s, drop n s)) [0..<Suc (length (takeWhile P s))]"

text \<open>\<open>A|B\<close>: the matches of \<open>A\<close> before those of \<open>B\<close>.\<close>

definition alt :: "matcher \<Rightarrow> matcher \<Rightarrow> matcher" where
  "alt p q s = p s @ q s"

text \<open>\<open>$\<close> without the MULTILINE flag: at the end, or before a newline that ends the input.\<close>

definition eos :: matcher where
  "eos s = (if s = [] \<or> s = [0xA] then [([], s)] else [])"

text \<open>\<open>.\<close> without the DOTALL flag: any character but a newline.\<close>

definition dot :: "nat \<Rightarrow> bool" where
  "dot c \<longleftrightarrow> c \<noteq> 0xA"

text \<open>The class \<open>[\d.]\<close>.\<close>

definition numch :: "nat \<Rightarrow> bool" where
  "numch c \<longleftrightarrow> is_digit c \<or> c = 0x2E"

text \<open>
  \<open>pattern.search(s)\<close>: the first match at the leftmost position that has one; the
  positions run from the start of \<open>s\<close> to its end, the end included.
\<close>

fun search :: "(ustr \<Rightarrow> 'a list) \<Rightarrow> ustr \<Rightarrow> 'a option" where
  "search m [] = (case m [] of [] \<Rightarrow> None | x # _ \<Rightarrow> Some x)"
| "search m (c # s) = (case m (c # s) of [] \<Rightarrow> search m s | x # _ \<Rightarrow> Some x)"

section \<open>The data of the program\<close>

text \<open>
  The dictionary that \<open>parse_line_fast\<close> returns has one of three shapes, told apart by
  its \<open>"type"\<close> entry; each shape is a constructor, with the dictionary's entries in
  the order of the source.
\<close>

datatype event =
    Hook (ev_time: ustr) (ev_rod: int) (ev_fish: ustr) (ev_weight: pyfloat)
  | Capture (ev_time: ustr) (ev_rod: int) (ev_fish: ustr) (ev_weight: pyfloat)
      (ev_exp: int) (ev_cost: ustr) (ev_bait: ustr)
  | Lost (ev_time: ustr) (ev_rod: int) (ev_fish: ustr) (ev_weight: pyfloat)

text \<open>The dataclass \<open>FishingRecord\<close>; the field \<open>exp\<close> is \<open>exp_pts\<close> here.\<close>

record FishingRecord =
  record_type :: string
  time :: ustr
  rod :: int
  fish :: ustr
  weight :: pyfloat
  exp_pts :: int
  cost :: ustr
  bait :: ustr

section \<open>FishingLogParser\<close>

subsection \<open>The three patterns\<close>

text \<open>
  The literals of the patterns, by code point. \<open>hook_head\<close> is the hook text up to the
  full-width colon before the rod digit, \<open>hook_mid\<close> the text from the full-width comma
  to the opening bracket U+3010; the closing bracket is U+3011.
\<close>

definition hook_head :: ustr where
  "hook_head = [0x9C7C, 0x4E0A, 0x94A9, 0x4E86, 0xFF01, 0x9C7C, 0x7AFF, 0xFF1A]"

definition hook_mid :: ustr where
  "hook_mid = [0xFF0C, 0x9C7C, 0x4FE1, 0x606F, 0x3A, 0x3010]"

definition rbracket :: ustr where
  "rbracket = [0x3011]"

definition unit_kg :: ustr where
  "unit_kg = ascii ''kg''"

definition unit_g :: ustr where
  "unit_g = ascii ''g''"

text \<open>
  \<open>HOOK_PATTERN\<close> at one position: the literal, \<open>(\d)\<close>, the literal, \<open>(.+?)\<close>, the
  closing bracket, \<open>([\d.]+)\<close>, \<open>(kg|g)\<close>. The result lists the four groups of every
  way to match, in the engine's order.
\<close>

definition hook_at :: "ustr \<Rightarrow> (ustr \<times> ustr \<times> ustr \<times> ustr) list" where
  "hook_at s =
     [(g1, g2, g3, g4).
        (l1, r1) \<leftarrow> lit hook_head s,
        (g1, r2) \<leftarrow> one is_digit r1,
        (l2, r3) \<leftarrow> lit hook_mid r2,
        (g2, r4) \<leftarrow> plus_lazy dot r3,
        (l3, r5) \<leftarrow> lit rbracket r4,
        (g3, r6) \<leftarrow> plus_greedy numch r5,
        (g4, r7) \<leftarrow> alt (lit unit_kg) (lit unit_g) r6]"

definition capture_head :: ustr where
  "capture_head = [0x6355, 0x83B7, 0xFF1A, 0x9C7C, 0x7AFF, 0x3A]"

definition capture_mid :: ustr where
  "capture_mid = [0x2C, 0x3010]"

definition unit_gongjin :: ustr where
  "unit_gongjin = [0x516C, 0x65A4]"

definition unit_ke :: ustr where
  "unit_ke = [0x514B]"

definition exp_label :: ustr where
  "exp_label = [0x603B, 0x7ECF, 0x9A8C, 0x3A]"

definition cost_label :: ustr where
  "cost_label = [0x8017, 0x65F6, 0x3A]"

definition seconds_mark :: ustr where
  "seconds_mark = [0x79D2]"

definition bait_label :: ustr where
  "bait_label = [0x9C7C, 0x9975, 0x3A]"

text \<open>
  \<open>CAPTURE_PATTERN\<close> at one position, piece by piece as the pattern is written; the
  result lists the seven groups of every way to match, in the engine's order.
\<close>

definition capture_at ::
  "ustr \<Rightarrow> (ustr \<times> ustr \<times> ustr \<times> ustr \<times> ustr \<times> ustr \<times> ustr) list" where
  "capture_at s =
     [(g1, g2, g3, g4, g5, g6, g7).
        (l1, r1) \<leftarrow> lit capture_head s,
        (g1, r2) \<leftarrow> one is_digit r1,
        (l2, r3) \<leftarrow> lit capture_mid r2,
        (g2, r4) \<leftarrow> plus_lazy dot r3,
        (l3, r5) \<leftarrow> lit rbracket r4,
        (s1, r6) \<leftarrow> star_lazy dot r5,
        (g3, r7) \<leftarrow> plus_greedy numch r6,
        (g4, r8) \<leftarrow> alt (lit unit_gongjin) (lit unit_ke) r7,
        (s2, r9) \<leftarrow> star_lazy dot r8,
        (l4, r10) \<leftarrow> lit exp_label r9,
        (g5, r11) \<leftarrow> plus_greedy is_digit r10,
        (s3, r12) \<leftarrow> star_lazy dot r11,
        (l5, r13) \<leftarrow> lit cost_label r12,
        (g6, r14) \<leftarrow> plus_greedy is_digit r13,
        (l6, r15) \<leftarrow> lit seconds_mark r14,
        (s4, r16) \<leftarrow> star_lazy dot r15,
        (l7, r17) \<leftarrow> lit bait_label r16,
        (g7, r18) \<leftarrow> plus_greedy dot r17,
        (l8, r19) \<leftarrow> eos r18]"

definition lost_head :: ustr where
  "lost_head = [0x9C7C, 0x8131, 0x94A9, 0x4E86, 0xFF01, 0x9C7C, 0x7AFF, 0xFF1A]"

text \<open>\<open>LOST_PATTERN\<close> at one position: the literal and \<open>(\d)\<close>.\<close>

definition lost_at :: "ustr \<Rightarrow> ustr list" where
  "lost_at s = [g1. (l1, r1) \<leftarrow> lit lost_head s, (g1, r2) \<leftarrow> one is_digit r1]"

subsection \<open>\<open>_parse_weight\<close>\<close>

text \<open>
  \<open>weight = float(value)\<close>, which may raise, then \<open>weight / 1000\<close> when the unit is
  \<open>"g"\<close> or the one-character gram unit U+514B, and \<open>weight\<close> itself otherwise
  (\<open>wt\<close> is the source's local \<open>weight\<close>).
\<close>

definition parse_weight :: "ustr \<Rightarrow> ustr \<Rightarrow> error + pyfloat" where
  "parse_weight val unit =
     (case py_float val of
        Inl e \<Rightarrow> Inl e
      | Inr wt \<Rightarrow> Inr (if unit \<in> set [unit_g, unit_ke] then fdiv wt 1000 else wt))"

subsection \<open>\<open>parse_line_fast\<close>\<close>

definition separator :: ustr where
  "separator = ascii '' : ''"

definition hook_marker :: ustr where
  "hook_marker = [0x9C7C, 0x4E0A, 0x94A9, 0x4E86]"

definition capture_marker :: ustr where
  "capture_marker = [0x6355, 0x83B7]"

definition lost_marker :: ustr where
  "lost_marker = [0x9C7C, 0x8131, 0x94A9, 0x4E86]"

text \<open>The fish of a lost event: the one full-width question mark U+FF1F.\<close>

definition unknown_fish :: ustr where
  "unknown_fish = [0xFF1F]"

text \<open>
  The result is \<open>Inr None\<close> where the source returns \<open>None\<close>, \<open>Inr (Some ev)\<close> where
  it returns a dictionary, and \<open>Inl e\<close> where building the dictionary raises: the entries
  are evaluated in the order written, so \<open>int\<close> of the rod first, then the weight, then
  \<open>int\<close> of the experience.
\<close>

definition parse_line_fast :: "ustr \<Rightarrow> error + event option" where
  "parse_line_fast line =
     (case split_once separator line of
        None \<Rightarrow> Inr None
      | Some (part0, content) \<Rightarrow>
          let tm = strip part0 in
          if contains hook_marker content then
            (case search hook_at content of
               None \<Rightarrow> Inr None
             | Some (g1, g2, g3, g4) \<Rightarrow>
                 (case py_int g1 of
                    Inl e \<Rightarrow> Inl e
                  | Inr r \<Rightarrow>
                      (case parse_weight g3 g4 of
                         Inl e \<Rightarrow> Inl e
                       | Inr w \<Rightarrow> Inr (Some (Hook tm r (take 10 g2) w)))))
          else if contains capture_marker content then
            (case search capture_at content of
               None \<Rightarrow> Inr None
             | Some (g1, g2, g3, g4, g5, g6, g7) \<Rightarrow>
                 (case py_int g1 of
                    Inl e \<Rightarrow> Inl e
                  | Inr r \<Rightarrow>
                      (case parse_weight g3 g4 of
                         Inl e \<Rightarrow> Inl e
                       | Inr w \<Rightarrow>
                           (case py_int g5 of
                              Inl e \<Rightarrow> Inl e
                            | Inr x \<Rightarrow>
                                Inr (Some (Capture tm r (take 10 g2) w x
                                             (g6 @ seconds_mark) g7))))))
          else if contains lost_marker content then
            (case search lost_at content of
               None \<Rightarrow> Inr None
             | Some g1 \<Rightarrow>
                 (case py_int g1 of
                    Inl e \<Rightarrow> Inl e
                  | Inr r \<Rightarrow> Inr (Some (Lost tm r unknown_fish (Finite 0)))))
          else Inr None)"

subsection \<open>\<open>parse_text\<close>\<close>

text \<open>The status text of a lost record, \<open>bait\<close> of every lost record: U+8131 U+94A9.\<close>

definition lost_bait :: ustr where
  "lost_bait = [0x8131, 0x94A9]"

text \<open>
  The state of the loop: \<open>hook_cache\<close>, a dictionary from rod to the hook event pending
  for it, and \<open>records\<close>. \<open>loop_body\<close> is one iteration for a line that parsed to an
  event: a hook is stored, a capture appends its record and pops the rod, a lost pops the
  rod and appends the record of the pending hook, or the placeholder record when there is
  none.
\<close>

type_synonym pstate = "(int \<rightharpoonup> event) \<times> FishingRecord list"

fun loop_body :: "pstate \<Rightarrow> event \<Rightarrow> pstate" where
  "loop_body (hook_cache, records) (Hook t r f w) =
     (hook_cache(r \<mapsto> Hook t r f w), records)"
| "loop_body (hook_cache, records) (Capture t r f w x c b) =
     (hook_cache(r := None),
      records @ [\<lparr>record_type = ''capture'', time = t, rod = r, fish = f, weight = w,
                  exp_pts = x, cost = c, bait = b\<rparr>])"
| "loop_body (hook_cache, records) (Lost t r f w) =
     (case hook_cache r of
        Some hook_data \<Rightarrow>
          (hook_cache(r := None),
           records @ [\<lparr>record_type = ''lost'', time = ev_time hook_data, rod = r,
                       fish = ev_fish hook_data, weight = ev_weight hook_data,
                       exp_pts = 0, cost = [], bait = lost_bait\<rparr>])
      | None \<Rightarrow>
          (hook_cache(r := None),
           records @ [\<lparr>record_type = ''lost'', time = t, rod = r, fish = unknown_fish,
                       weight = Finite 0, exp_pts = 0, cost = [], bait = lost_bait\<rparr>]))"

text \<open>
  The \<open>for\<close> loop over the lines: a line that is not an event is skipped, and an
  exception raised by \<open>parse_line_fast\<close> leaves the loop and \<open>parse_text\<close>, since
  neither has a handler. The pause every thousand lines changes no data and is left out.
\<close>

fun run_lines :: "pstate \<Rightarrow> ustr list \<Rightarrow> error + pstate" where
  "run_lines st [] = Inr st"
| "run_lines st (line # lines) =
     (case parse_line_fast line of
        Inl e \<Rightarrow> Inl e
      | Inr None \<Rightarrow> run_lines st lines
      | Inr (Some parsed) \<Rightarrow> run_lines (loop_body st parsed) lines)"

definition parse_text :: "ustr \<Rightarrow> error + FishingRecord list" where
  "parse_text text =
     (case run_lines (Map.empty, []) (splitlines (strip text)) of
        Inl e \<Rightarrow> Inl e
      | Inr (hook_cache, records) \<Rightarrow> Inr records)"

subsection \<open>The caller: \<open>FishingLogAnalyzer.analyze\<close>\<close>

text \<open>
  What \<open>analyze\<close> does with the text of the input box, as far as the parser is concerned:
  the text is stripped; an empty text shows the warning and returns before the parser is
  called; otherwise \<open>parse_text\<close> runs inside \<open>try\<close>, an exception shows the error
  dialog, no record shows the information dialog, and otherwise the records are kept.
  The outcome names the branch taken; what follows the parse (caching, rendering, the
  message with the timing) is not modelled.
\<close>

datatype analyze_outcome =
    EmptyInputWarning
  | NoRecordsInfo
  | Success "FishingRecord list"
  | ParseErrorDialog error

definition analyze :: "ustr \<Rightarrow> analyze_outcome" where
  "analyze input_text =
     (let text = strip input_text
      in if text = [] then EmptyInputWarning
         else (case parse_text text of
                 Inl e \<Rightarrow> ParseErrorDialog e
               | Inr all_records \<Rightarrow>
                   if all_records = [] then NoRecordsInfo else Success all_records))"

section \<open>RecordCache\<close>

text \<open>
  The cache is a Python dictionary, which keeps its keys in the order of insertion:
  assigning to a key that is present replaces its value in place, assigning to a key
  that is absent appends it, and \<open>next(iter(d))\<close> is the first key. It is modelled as the
  list of its entries in that order (\<open>AList.update\<close> is the assignment, \<open>AList.delete\<close>
  is \<open>del\<close>). The methods \<open>get\<close>, \<open>set\<close> and \<open>clear\<close> are \<open>cache_get\<close>,
  \<open>cache_set\<close> and \<open>cache_clear\<close>.
\<close>

record ('k, 'v) RecordCache =
  max_size :: int
  cache :: "('k \<times> 'v) list"

definition RecordCache_init :: "int \<Rightarrow> ('k, 'v) RecordCache" where
  "RecordCache_init n = \<lparr>max_size = n, cache = []\<rparr>"

definition cache_get :: "('k, 'v) RecordCache \<Rightarrow> 'k \<Rightarrow> 'v option" where
  "cache_get c key = map_of (cache c) key"

text \<open>
  \<open>set\<close>: when the dictionary holds \<open>max_size\<close> entries or more, its first key is
  deleted (\<open>next\<close> raises \<open>StopIteration\<close> on an empty dictionary); then the key is
  assigned.
\<close>

definition cache_set :: "('k, 'v) RecordCache \<Rightarrow> 'k \<Rightarrow> 'v \<Rightarrow> error + ('k, 'v) RecordCache" where
  "cache_set c key records =
     (if max_size c \<le> int (length (cache c)) then
        (case cache c of
           [] \<Rightarrow> Inl StopIteration
         | (first_key, first_records) # others \<Rightarrow>
             Inr (c\<lparr>cache := AList.update key records (AList.delete first_key (cache c))\<rparr>))
      else Inr (c\<lparr>cache := AList.update key records (cache c)\<rparr>))"

definition cache_clear :: "('k, 'v) RecordCache \<Rightarrow> ('k, 'v) RecordCache" where
  "cache_clear c = c\<lparr>cache := []\<rparr>"

text \<open>A caller's sequence of reads and writes, run from left to right; a read changes nothing.\<close>

datatype ('k, 'v) cache_op = GetOp 'k | SetOp 'k 'v

fun run_ops :: "('k, 'v) RecordCache \<Rightarrow> ('k, 'v) cache_op list \<Rightarrow> error + ('k, 'v) RecordCache" where
  "run_ops c [] = Inr c"
| "run_ops c (GetOp key # ops) = (case cache_get c key of r \<Rightarrow> run_ops c ops)"
| "run_ops c (SetOp key records # ops) =
     (case cache_set c key records of Inl e \<Rightarrow> Inl e | Inr c' \<Rightarrow> run_ops c' ops)"

text \<open>
  A ghost of the cache for stating which key is the oldest: the keys of the cache in
  its order, each with the index of the operation that inserted it. It follows \<open>set\<close>
  step by step: at capacity the first key goes, a key that is then present keeps its
  stamp, and a key that is absent is appended with the index of the current operation.
\<close>

fun stamps :: "int \<Rightarrow> nat \<Rightarrow> ('k \<times> nat) list \<Rightarrow> ('k, 'v) cache_op list \<Rightarrow> ('k \<times> nat) list" where
  "stamps n i sl [] = sl"
| "stamps n i sl (GetOp key # ops) = stamps n (Suc i) sl ops"
| "stamps n i sl (SetOp key records # ops) =
     stamps n (Suc i)
       (let kept = (if n \<le> int (length sl) then tl sl else sl)
        in if key \<in> fst ` set kept then kept else kept @ [(key, i)])
       ops"

text \<open>What every reachable state of the cache satisfies.\<close>

definition cache_inv :: "int \<Rightarrow> ('k, 'v) RecordCache \<Rightarrow> bool" where
  "cache_inv n c \<longleftrightarrow>
     max_size c = n \<and> int (length (cache c)) \<le> n \<and> distinct (map fst (cache c))"

section \<open>Example inputs\<close>

text \<open>
  Log lines used to run the definitions: a hook, a capture and a lost line for rod 1
  (the first two are the lines of the two-line scenario, whose fish is U+9CA4 U+9C7C), a
  second hook for rod 1 with another fish, a hook line whose weight token is \<open>1.2.3\<close>,
  and a hook and a lost line whose rod is written \<open>12\<close>.
\<close>

definition hook_line :: ustr where
  "hook_line = ascii ''10:00'' @ separator @ hook_head @ 0x31 # hook_mid @
     [0x9CA4, 0x9C7C] @ rbracket @ ascii ''2.5'' @ unit_kg"

definition capture_content :: ustr where
  "capture_content = capture_head @ 0x31 # capture_mid @ [0x9CA4, 0x9C7C] @ rbracket @
     ascii ''2500'' @ unit_ke @ 0x2C # exp_label @ ascii ''100,'' @ cost_label @
     ascii ''30'' @ seconds_mark @ 0x2C # bait_label @ [0x86AF, 0x8693]"

definition capture_line :: ustr where
  "capture_line = ascii ''10:01'' @ separator @ capture_content"

definition lost_line :: ustr where
  "lost_line = ascii ''10:02'' @ separator @ lost_head @ [0x31]"

definition hook_line2 :: ustr where
  "hook_line2 = ascii ''10:03'' @ separator @ hook_head @ 0x31 # hook_mid @
     [0x8349, 0x9C7C] @ rbracket @ ascii ''500'' @ unit_g"

definition bad_weight_line :: ustr where
  "bad_weight_line = ascii ''10:05'' @ separator @ hook_head @ 0x31 # hook_mid @
     [0x9CA4, 0x9C7C] @ rbracket @ ascii ''1.2.3'' @ unit_kg"

definition hook_content_rod12 :: ustr where
  "hook_content_rod12 = hook_head @ 0x31 # 0x32 # hook_mid @
     [0x9CA4, 0x9C7C] @ rbracket @ ascii ''2.5'' @ unit_kg"

definition hook_line_rod12 :: ustr where
  "hook_line_rod12 = ascii ''10:06'' @ separator @ hook_content_rod12"

definition lost_line_rod12 :: ustr where
  "lost_line_rod12 = ascii ''10:07'' @ separator @ lost_head @ [0x31, 0x32]"

text \<open>A hook line for rod 2 whose fish name has twelve characters and whose weight is \<open>1.2kg\<close>.\<close>

definition long_name_line :: ustr where
  "long_name_line = ascii ''10:08'' @ separator @ hook_head @ 0x32 # hook_mid @
     ascii ''ABCDEFGHIJKL'' @ rbracket @ ascii ''1.2'' @ unit_kg"

text \<open>The input of the end-to-end scenario, code point by code point.\<close>

definition spec_example :: ustr where
  "spec_example = [0x31, 0x30, 0x3A, 0x30, 0x30, 0x20, 0x3A, 0x20, 0x9C7C, 0x4E0A, 0x94A9,
     0x4E86, 0xFF01, 0x9C7C, 0x7AFF, 0xFF1A, 0x31, 0xFF0C, 0x9C7C, 0x4FE1, 0x606F, 0x3A, 0x3010,
     0x9CA4, 0x9C7C, 0x3011, 0x32, 0x2E, 0x35, 0x6B, 0x67, 0xA, 0x31, 0x30, 0x3A, 0x30, 0x31,
     0x20, 0x3A, 0x20, 0x6355, 0x83B7, 0xFF1A, 0x9C7C, 0x7AFF, 0x3A, 0x31, 0x2C, 0x3010, 0x9CA4,
     0x9C7C, 0x3011, 0x32, 0x35, 0x30, 0x30, 0x514B, 0x2C, 0x603B, 0x7ECF, 0x9A8C, 0x3A, 0x31,
     0x30, 0x30, 0x2C, 0x8017, 0x65F6, 0x3A, 0x33, 0x30, 0x79D2, 0x2C, 0x9C7C, 0x9975, 0x3A,
     0x86AF, 0x8693]"

section \<open>Evaluation on concrete inputs\<close>

text \<open>
  Rewrite rules that let the simplifier run the definitions on literals: floors and
  ceilings of quotients of numerals, and the bit length of a numeral.
\<close>

lemma floor_rat_numeral: "\<lfloor>numeral a / numeral b :: rat\<rfloor> = numeral a div numeral b"
  by (metis floor_divide_of_int_eq of_int_numeral)

lemma ceiling_rat_numeral:
  "\<lceil>numeral a / numeral b :: rat\<rceil> = - (- numeral a div numeral b)"
  by (metis ceiling_def floor_divide_of_int_eq minus_divide_left of_int_minus of_int_numeral)

lemma bitlen_numeral: "bitlen (numeral k) = bitlen (numeral k div 2) + 1"
  by (subst compute_bitlen) simp

lemma bitlen_one: "bitlen 1 = 1"
  by (subst compute_bitlen) simp

lemmas float_eval = round_double_def ilog2_def round_half_even_def pow2_def Let_def
  floor_rat_numeral ceiling_rat_numeral bitlen_numeral bitlen_one

lemmas digit_eval = is_digit_def digit_val_def nd_zeros_def digits_val_def

lemmas literal_defs = ascii_def separator_def hook_marker_def capture_marker_def
  lost_marker_def hook_head_def hook_mid_def rbracket_def unit_kg_def unit_g_def
  capture_head_def capture_mid_def unit_gongjin_def unit_ke_def exp_label_def cost_label_def
  seconds_mark_def bait_label_def lost_head_def unknown_fish_def lost_bait_def

lemmas matcher_defs = lit_def one_def plus_lazy_def plus_greedy_def star_lazy_def alt_def
  eos_def dot_def numch_def

text \<open>Which of the characters used in the examples below are decimal digits.\<close>

lemma char_facts:
  shows "\<not> is_digit 0x20"
    and "\<not> is_digit 0x2C"
    and "\<not> is_digit 0x2E"
    and "is_digit 0x30"
    and "is_digit 0x31"
    and "is_digit 0x32"
    and "is_digit 0x33"
    and "is_digit 0x34"
    and "is_digit 0x35"
    and "is_digit 0x36"
    and "is_digit 0x37"
    and "is_digit 0x38"
    and "is_digit 0x39"
    and "\<not> is_digit 0x3A"
    and "\<not> is_digit 0x67"
    and "\<not> is_digit 0x6B"
    and "\<not> is_digit 0x3010"
    and "\<not> is_digit 0x3011"
    and "\<not> is_digit 0x4E0A"
    and "\<not> is_digit 0x4E86"
    and "\<not> is_digit 0x4FE1"
    and "\<not> is_digit 0x514B"
    and "\<not> is_digit 0x516C"
    and "\<not> is_digit 0x603B"
    and "\<not> is_digit 0x606F"
    and "\<not> is_digit 0x6355"
    and "\<not> is_digit 0x65A4"
    and "\<not> is_digit 0x65F6"
    and "\<not> is_digit 0x79D2"
    and "\<not> is_digit 0x7AFF"
    and "\<not> is_digit 0x7ECF"
    and "\<not> is_digit 0x8017"
    and "\<not> is_digit 0x8131"
    and "\<not> is_digit 0x8349"
    and "\<not> is_digit 0x83B7"
    and "\<not> is_digit 0x8693"
    and "\<not> is_digit 0x86AF"
    and "\<not> is_digit 0x94A9"
    and "\<not> is_digit 0x9975"
    and "\<not> is_digit 0x9A8C"
    and "\<not> is_digit 0x9C7C"
    and "\<not> is_digit 0x9CA4"
    and "\<not> is_digit 0xFF01"
    and "\<not> is_digit 0xFF0C"
    and "\<not> is_digit 0xFF1A"
  by (simp_all add: digit_eval)

section \<open>Lines of a known shape\<close>

text \<open>
  What the classifier does with a hook line and a lost line written the way the game
  writes them, for any time stamp without a space, any digit, any fish name without a
  closing bracket or newline and any weight token. The lazy \<open>(.+?)\<close> stops at the first
  closing bracket, and the greedy \<open>([\d.]+)\<close> takes the whole run of digits and full
  stops, since the unit that follows starts with a letter.
\<close>

lemma split_once_separator:
  "0x20 \<notin> set t \<Longrightarrow> split_once separator (t @ separator @ c) = Some (t, c)"
  by (induction t) (auto simp: separator_def ascii_def)

lemma lit_append: "lit p (p @ r) = [(p, r)]"
  by (simp add: lit_def)

lemma one_Cons: "P c \<Longrightarrow> one P (c # r) = [([c], r)]"
  by (simp add: one_def)

lemma concat_map_first:
  assumes "ys = pre @ y # post" and "\<forall>x\<in>set pre. f x = []" and "f y = z # zs"
  shows "\<exists>rest. concat (map f ys) = z # rest"
proof -
  have "concat (map f pre) = []"
    using assms(2) by (induction pre) auto
  then have "concat (map f ys) = z # (zs @ concat (map f post))"
    unfolding assms(1) using assms(3) by (simp del: concat_eq_Nil_conv)
  then show ?thesis
    by blast
qed

lemma upt_split_at:
  assumes "i \<le> k" and "k < j"
  shows "[i..<j] = [i..<k] @ k # [Suc k..<j]"
proof -
  have "[i..<j] = [i..<k + (j - k)]"
    using assms by simp
  also have "\<dots> = [i..<k] @ [k..<k + (j - k)]"
    using assms(1) by (rule upt_add_eq_append)
  also have "[k..<k + (j - k)] = k # [Suc k..<j]"
    using assms by (simp add: upt_conv_Cons)
  finally show ?thesis .
qed

lemma plus_lazy_split:
  assumes "1 \<le> k" and "k \<le> length (takeWhile P s)"
  shows "plus_lazy P s = map (\<lambda>n. (take n s, drop n s)) [1..<k] @ (take k s, drop k s) #
           map (\<lambda>n. (take n s, drop n s)) [Suc k..<Suc (length (takeWhile P s))]"
proof -
  have "[1..<Suc (length (takeWhile P s))] = [1..<k] @ k # [Suc k..<Suc (length (takeWhile P s))]"
    using assms by (intro upt_split_at) auto
  then show ?thesis
    by (simp add: plus_lazy_def)
qed

text \<open>The longest run comes first in the greedy order.\<close>

lemma plus_greedy_first:
  assumes "w \<noteq> []" and "list_all P w" and "case u of [] \<Rightarrow> True | c # _ \<Rightarrow> \<not> P c"
  shows "\<exists>rest. plus_greedy P (w @ u) = (w, u) # rest"
proof -
  have tw: "takeWhile P (w @ u) = w"
    using assms(2,3) by (cases u) (auto simp: takeWhile_append2 list_all_iff)
  have "[1..<Suc (length w)] = [1..<length w] @ [length w]"
    using assms(1) by (cases w) auto
  then show ?thesis
    by (simp add: plus_greedy_def plus_lazy_def tw)
qed

lemma hook_at_shape:
  assumes d: "is_digit d"
    and name: "name \<noteq> []" "0x3011 \<notin> set name" "0xA \<notin> set name"
    and w: "w \<noteq> []" "list_all numch w"
    and u: "u = unit_kg \<or> u = unit_g"
  shows "\<exists>rest. hook_at (hook_head @ d # hook_mid @ name @ rbracket @ w @ u) =
           ([d], name, w, u) # rest"
proof -
  let ?s = "name @ rbracket @ w @ u"
  let ?f = "\<lambda>(g2, r4). concat (map (\<lambda>(l3, r5). concat (map (\<lambda>(g3, r6).
      map (\<lambda>(g4, r7). ([d], g2, g3, g4)) (alt (lit unit_kg) (lit unit_g) r6))
      (plus_greedy numch r5))) (lit rbracket r4))"
  have eq: "hook_at (hook_head @ d # hook_mid @ ?s) = concat (map ?f (plus_lazy dot ?s))"
    using d by (simp add: hook_at_def lit_append one_Cons)
  have tw: "length name < length (takeWhile dot ?s)"
  proof -
    have "takeWhile dot ?s = name @ takeWhile dot (rbracket @ w @ u)"
      using name(3) by (intro takeWhile_append2) (auto simp: dot_def)
    then show ?thesis
      by (simp add: rbracket_def dot_def)
  qed
  have split: "plus_lazy dot ?s =
      map (\<lambda>n. (take n ?s, drop n ?s)) [1..<length name] @ (name, rbracket @ w @ u) #
      map (\<lambda>n. (take n ?s, drop n ?s)) [Suc (length name)..<Suc (length (takeWhile dot ?s))]"
    using plus_lazy_split [of "length name" dot ?s] name(1) tw
    by (cases name) auto
  have early: "\<forall>x\<in>set (map (\<lambda>n. (take n ?s, drop n ?s)) [1..<length name]). ?f x = []"
  proof
    fix x assume "x \<in> set (map (\<lambda>n. (take n ?s, drop n ?s)) [1..<length name])"
    then obtain n where n: "n < length name" and x: "x = (take n ?s, drop n ?s)"
      by auto
    from n have "drop n ?s = (name ! n) # drop (Suc n) name @ rbracket @ w @ u"
      by (simp add: Cons_nth_drop_Suc)
    moreover from n name(2) have "name ! n \<noteq> 0x3011"
      by (metis nth_mem)
    ultimately have "lit rbracket (drop n ?s) = []"
      by (simp add: lit_def rbracket_def)
    with x show "?f x = []"
      by simp
  qed
  have notnum: "case u of [] \<Rightarrow> True | c # _ \<Rightarrow> \<not> numch c"
    using u by (auto simp: unit_kg_def unit_g_def ascii_def numch_def digit_eval)
  obtain rest1 where g: "plus_greedy numch (w @ u) = (w, u) # rest1"
    using plus_greedy_first [OF w notnum] by blast
  have au: "alt (lit unit_kg) (lit unit_g) u = [(u, [])]"
    using u by (auto simp: alt_def lit_def unit_kg_def unit_g_def ascii_def)
  have here: "\<exists>zs. ?f (name, rbracket @ w @ u) = ([d], name, w, u) # zs"
    by (simp add: lit_append g au)
  then obtain zs where "?f (name, rbracket @ w @ u) = ([d], name, w, u) # zs"
    by blast
  from concat_map_first [OF split early this] eq show ?thesis
    by simp
qed


lemma search_first: "m s = x # xs \<Longrightarrow> search m s = Some x"
  by (cases s) auto

lemma contains_prefix: "prefix sub s \<Longrightarrow> contains sub s"
  by (cases s) auto

lemma py_int_digit: "is_digit d \<Longrightarrow> py_int [d] = Inr (int (the (digit_val d)))"
  by (simp add: py_int_def digits_val_def int_max_str_digits_def)

lemma parse_hook_line:
  assumes t: "0x20 \<notin> set t"
    and d: "is_digit d"
    and name: "name \<noteq> []" "0x3011 \<notin> set name" "0xA \<notin> set name"
    and w: "w \<noteq> []" "list_all numch w"
    and u: "u = unit_kg \<or> u = unit_g"
  shows "parse_line_fast (t @ separator @ hook_head @ d # hook_mid @ name @ rbracket @ w @ u) =
     (case parse_weight w u of
        Inl e \<Rightarrow> Inl e
      | Inr x \<Rightarrow> Inr (Some (Hook (strip t) (int (the (digit_val d))) (take 10 name) x)))"
proof -
  let ?c = "hook_head @ d # hook_mid @ name @ rbracket @ w @ u"
  have sp: "split_once separator (t @ separator @ ?c) = Some (t, ?c)"
    using t by (rule split_once_separator)
  have mk: "contains hook_marker ?c"
    by (rule contains_prefix) (simp add: hook_marker_def hook_head_def)
  obtain rest where "hook_at ?c = ([d], name, w, u) # rest"
    using hook_at_shape [OF d name w u] by blast
  then have se: "search hook_at ?c = Some ([d], name, w, u)"
    by (rule search_first)
  show ?thesis
    unfolding parse_line_fast_def sp
    by (simp add: mk se py_int_digit [OF d] split: sum.splits)
qed

lemma digit_not_marker: "is_digit d \<Longrightarrow> d \<noteq> 0x9C7C \<and> d \<noteq> 0x6355"
  by (auto simp: digit_eval)

lemma parse_lost_line:
  assumes t: "0x20 \<notin> set t"
    and d: "is_digit d"
    and rest: "\<not> contains hook_marker rest" "\<not> contains capture_marker rest"
  shows "parse_line_fast (t @ separator @ lost_head @ d # rest) =
     Inr (Some (Lost (strip t) (int (the (digit_val d))) unknown_fish (Finite 0)))"
proof -
  let ?c = "lost_head @ d # rest"
  have sp: "split_once separator (t @ separator @ ?c) = Some (t, ?c)"
    using t by (rule split_once_separator)
  have nh: "\<not> contains hook_marker ?c"
    using rest(1) digit_not_marker [OF d] by (simp add: hook_marker_def lost_head_def)
  have nc: "\<not> contains capture_marker ?c"
    using rest(2) digit_not_marker [OF d] by (simp add: capture_marker_def lost_head_def)
  have mk: "contains lost_marker ?c"
    by (rule contains_prefix) (simp add: lost_marker_def lost_head_def)
  have "lost_at ?c = [[d]]"
    using d by (simp add: lost_at_def lit_append one_Cons)
  then have se: "search lost_at ?c = Some [d]"
    by (rule search_first)
  show ?thesis
    unfolding parse_line_fast_def sp
    by (simp add: nh nc mk se py_int_digit [OF d])
qed


section \<open>The example lines, classified\<close>

lemmas example_defs = hook_line_def capture_line_def capture_content_def lost_line_def
  hook_line2_def bad_weight_line_def hook_line_rod12_def hook_content_rod12_def
  lost_line_rod12_def long_name_line_def spec_example_def

lemma strip_time: "strip (ascii [CHR ''1'', CHR ''0'', CHR '':'', CHR ''0'', c]) =
    ascii [CHR ''1'', CHR ''0'', CHR '':'', CHR ''0'', c]"
  if "\<not> is_space (of_char c)"
  using that by (simp add: strip_def ascii_def is_space_def)

lemma weight_2500_ke: "parse_weight (ascii ''2500'') unit_ke = Inr (Finite (5 / 2))"
  by (simp add: parse_weight_def py_float_def ascii_def unit_kg_def unit_g_def unit_ke_def
      char_facts digits_val_def digit_val_def nd_zeros_def float_eval)

lemma weight_500_g: "parse_weight (ascii ''500'') unit_g = Inr (Finite (1 / 2))"
  by (simp add: parse_weight_def py_float_def ascii_def unit_kg_def unit_g_def unit_ke_def
      char_facts digits_val_def digit_val_def nd_zeros_def float_eval)

lemma weight_2_5_kg: "parse_weight (ascii ''2.5'') unit_kg = Inr (Finite (5 / 2))"
  by (simp add: parse_weight_def py_float_def ascii_def unit_kg_def unit_g_def unit_ke_def
      char_facts digits_val_def digit_val_def nd_zeros_def float_eval)

lemma weight_1_2_kg:
  "parse_weight (ascii ''1.2'') unit_kg = Inr (Finite (5404319552844595 / 4503599627370496))"
  by (simp add: parse_weight_def py_float_def ascii_def unit_kg_def unit_g_def unit_ke_def
      char_facts digits_val_def digit_val_def nd_zeros_def float_eval)

lemma hook_line_parses:
  "parse_line_fast hook_line =
     Inr (Some (Hook (ascii ''10:00'') 1 [0x9CA4, 0x9C7C] (Finite (5 / 2))))"
proof -
  have "parse_line_fast hook_line =
     (case parse_weight (ascii ''2.5'') unit_kg of
        Inl e \<Rightarrow> Inl e
      | Inr x \<Rightarrow> Inr (Some (Hook (strip (ascii ''10:00'')) (int (the (digit_val 0x31)))
                   (take 10 [0x9CA4, 0x9C7C]) x)))"
    unfolding hook_line_def
    by (rule parse_hook_line) (simp_all add: ascii_def char_facts numch_def)
  moreover note weight_2_5_kg
  ultimately show ?thesis
    by (simp add: strip_time is_space_def digit_val_def nd_zeros_def)
qed

lemma hook_line2_parses:
  "parse_line_fast hook_line2 =
     Inr (Some (Hook (ascii ''10:03'') 1 [0x8349, 0x9C7C] (Finite (1 / 2))))"
proof -
  have "parse_line_fast hook_line2 =
     (case parse_weight (ascii ''500'') unit_g of
        Inl e \<Rightarrow> Inl e
      | Inr x \<Rightarrow> Inr (Some (Hook (strip (ascii ''10:03'')) (int (the (digit_val 0x31)))
                   (take 10 [0x8349, 0x9C7C]) x)))"
    unfolding hook_line2_def
    by (rule parse_hook_line) (simp_all add: ascii_def char_facts numch_def)
  moreover note weight_500_g
  ultimately show ?thesis
    by (simp add: strip_time is_space_def digit_val_def nd_zeros_def)
qed

lemma bad_weight_line_raises: "parse_line_fast bad_weight_line = Inl ValueError"
proof -
  have "parse_line_fast bad_weight_line =
     (case parse_weight (ascii ''1.2.3'') unit_kg of
        Inl e \<Rightarrow> Inl e
      | Inr x \<Rightarrow> Inr (Some (Hook (strip (ascii ''10:05'')) (int (the (digit_val 0x31)))
                   (take 10 [0x9CA4, 0x9C7C]) x)))"
    unfolding bad_weight_line_def
    by (rule parse_hook_line) (simp_all add: ascii_def char_facts numch_def)
  moreover have "parse_weight (ascii ''1.2.3'') unit_kg = Inl ValueError"
    by (simp add: parse_weight_def py_float_def ascii_def char_facts)
  ultimately show ?thesis
    by simp
qed

lemma lost_line_parses:
  "parse_line_fast lost_line = Inr (Some (Lost (ascii ''10:02'') 1 unknown_fish (Finite 0)))"
proof -
  have "parse_line_fast lost_line =
     Inr (Some (Lost (strip (ascii ''10:02'')) (int (the (digit_val 0x31))) unknown_fish
       (Finite 0)))"
    unfolding lost_line_def
    by (rule parse_lost_line)
       (simp_all add: ascii_def char_facts hook_marker_def capture_marker_def)
  then show ?thesis
    by (simp add: strip_time is_space_def digit_val_def nd_zeros_def)
qed

lemma lost_line_rod12_parses:
  "parse_line_fast lost_line_rod12 =
     Inr (Some (Lost (ascii ''10:07'') 1 unknown_fish (Finite 0)))"
proof -
  have "parse_line_fast lost_line_rod12 =
     Inr (Some (Lost (strip (ascii ''10:07'')) (int (the (digit_val 0x31))) unknown_fish
       (Finite 0)))"
    unfolding lost_line_rod12_def append_Cons append_Nil
    by (rule parse_lost_line)
       (simp_all add: ascii_def char_facts hook_marker_def capture_marker_def)
  then show ?thesis
    by (simp add: strip_time is_space_def digit_val_def nd_zeros_def)
qed

lemma long_name_line_parses:
  "parse_line_fast long_name_line =
     Inr (Some (Hook (ascii ''10:08'') 2 (ascii ''ABCDEFGHIJ'')
                  (Finite (5404319552844595 / 4503599627370496))))"
proof -
  have "parse_line_fast long_name_line =
     (case parse_weight (ascii ''1.2'') unit_kg of
        Inl e \<Rightarrow> Inl e
      | Inr x \<Rightarrow> Inr (Some (Hook (strip (ascii ''10:08'')) (int (the (digit_val 0x32)))
                   (take 10 (ascii ''ABCDEFGHIJKL'')) x)))"
    unfolding long_name_line_def
    by (rule parse_hook_line) (simp_all add: ascii_def char_facts numch_def)
  moreover note weight_1_2_kg
  ultimately show ?thesis
    by (simp add: strip_def is_space_def digit_val_def nd_zeros_def ascii_def)
qed

lemma hook_line_rod12_unrecognized: "parse_line_fast hook_line_rod12 = Inr None"
proof -
  have sp: "split_once separator hook_line_rod12 = Some (ascii ''10:06'', hook_content_rod12)"
    unfolding hook_line_rod12_def by (rule split_once_separator) (simp add: ascii_def)
  have mk: "contains hook_marker hook_content_rod12"
    by (rule contains_prefix) (simp add: hook_marker_def hook_content_rod12_def hook_head_def)
  have se: "search hook_at hook_content_rod12 = None"
    by (simp add: hook_content_rod12_def hook_at_def literal_defs lit_def one_def char_facts)
  show ?thesis
    unfolding parse_line_fast_def sp by (simp add: mk se)
qed

lemma capture_content_match:
  "search capture_at capture_content =
     Some ([0x31], [0x9CA4, 0x9C7C], ascii ''2500'', unit_ke, ascii ''100'', ascii ''30'',
           [0x86AF, 0x8693])"
  by (simp add: capture_content_def capture_at_def literal_defs matcher_defs char_facts)



section \<open>The loop of \<open>parse_text\<close>\<close>

text \<open>
  Facts about the loop that the properties below share: the loop over a concatenation,
  the records only ever grow at the end, and a line that is no event for a rod leaves
  that rod's pending entry alone.
\<close>

lemma run_lines_append:
  "run_lines st (xs @ ys) =
     (case run_lines st xs of Inl e \<Rightarrow> Inl e | Inr st' \<Rightarrow> run_lines st' ys)"
  by (induction xs arbitrary: st) (auto split: sum.splits option.splits)

lemma run_lines_single:
  "parse_line_fast l = Inr (Some ev) \<Longrightarrow> run_lines st [l] = Inr (loop_body st ev)"
  by simp

lemma run_lines_snoc:
  assumes "run_lines st xs = Inr st'" and "parse_line_fast l = Inr (Some ev)"
  shows "run_lines st (xs @ [l]) = Inr (loop_body st' ev)"
  using assms by (simp add: run_lines_append)

lemma loop_body_records:
  "\<exists>more. snd (loop_body (hc, rs) ev) = rs @ more"
  by (cases ev) (auto split: option.splits)

lemma run_lines_records:
  "run_lines (hc, rs) ls = Inr (hc', rs') \<Longrightarrow> \<exists>more. rs' = rs @ more"
proof (induction ls arbitrary: hc rs)
  case Nil
  then show ?case by simp
next
  case (Cons l ls)
  show ?case
  proof (cases "parse_line_fast l")
    case (Inl e)
    with Cons.prems show ?thesis by simp
  next
    case (Inr p)
    show ?thesis
    proof (cases p)
      case None
      with Inr Cons show ?thesis by simp
    next
      case (Some ev)
      obtain hc1 rs1 where st: "loop_body (hc, rs) ev = (hc1, rs1)"
        by (cases "loop_body (hc, rs) ev")
      obtain m1 where m1: "rs1 = rs @ m1"
        using loop_body_records [of hc rs ev] st by auto
      from Inr Some st Cons.prems have "run_lines (hc1, rs1) ls = Inr (hc', rs')"
        by simp
      then obtain m2 where "rs' = rs1 @ m2"
        using Cons.IH by blast
      with m1 show ?thesis by simp
    qed
  qed
qed

lemma parse_text_records:
  assumes "splitlines (strip text) = xs @ ys"
    and "run_lines (Map.empty, []) xs = Inr (hc, rs)"
    and "parse_text text = Inr out"
  shows "\<exists>more. out = rs @ more"
proof -
  from assms obtain hc' where "run_lines (hc, rs) ys = Inr (hc', out)"
    by (auto simp: parse_text_def run_lines_append split: sum.splits)
  then show ?thesis
    by (rule run_lines_records)
qed





lemma parse_line_fast_time:
  "parse_line_fast l = Inr (Some ev) \<Longrightarrow>
   \<exists>part0 content. split_once separator l = Some (part0, content) \<and> ev_time ev = strip part0"
  by (auto simp: parse_line_fast_def Let_def split: option.splits if_splits sum.splits prod.splits)


section \<open>Empty input\<close>

lemma strip_Nil_iff: "strip s = [] \<longleftrightarrow> list_all is_space s"
proof
  assume "strip s = []"
  then have a: "dropWhile is_space (rev (dropWhile is_space s)) = []"
    by (simp add: strip_def)
  show "list_all is_space s"
  proof (rule ccontr)
    assume "\<not> list_all is_space s"
    then have ne: "dropWhile is_space s \<noteq> []"
      by (simp add: dropWhile_eq_Nil_conv list_all_iff)
    then have "\<not> is_space (hd (dropWhile is_space s))"
      by (rule hd_dropWhile)
    moreover have "hd (dropWhile is_space s) \<in> set (rev (dropWhile is_space s))"
      using ne by simp
    ultimately have "dropWhile is_space (rev (dropWhile is_space s)) \<noteq> []"
      by (auto simp: dropWhile_eq_Nil_conv simp del: set_rev)
    with a show False by simp
  qed
next
  assume "list_all is_space s"
  then have "dropWhile is_space s = []"
    by (simp add: dropWhile_eq_Nil_conv list_all_iff)
  then show "strip s = []"
    unfolding strip_def by (simp del: dropWhile_eq_Nil_conv)
qed

text \<open>
  C10. \<open>parse_text\<close> on a text that is empty or holds white space only returns the empty
  list of records and raises nothing; the warning for an empty input is the caller's:
  \<open>analyze\<close> shows it exactly for such a text, before it would call the parser.
\<close>

theorem parse_text_blank:
  "(list_all is_space text \<longrightarrow> parse_text text = Inr []) \<and>
   (analyze text = EmptyInputWarning \<longleftrightarrow> list_all is_space text)"
proof -
  have a: "parse_text text = Inr []" if "list_all is_space text"
  proof -
    from that have "strip text = []"
      by (simp add: strip_Nil_iff)
    then show ?thesis
      by (simp add: parse_text_def splitlines_def)
  qed
  have "analyze text = EmptyInputWarning \<longleftrightarrow> strip text = []"
    by (auto simp: analyze_def Let_def split: sum.splits)
  then have b: "analyze text = EmptyInputWarning \<longleftrightarrow> list_all is_space text"
    by (simp add: strip_Nil_iff)
  from a b show ?thesis
    by blast
qed

theorem parse_text_blank_witness:
  "list_all is_space [0x20, 0xA, 0x3000, 0x9] \<and> parse_text [0x20, 0xA, 0x3000, 0x9] = Inr []
   \<and> analyze [0x20, 0xA, 0x3000, 0x9] = EmptyInputWarning"
proof -
  have h: "list_all is_space [0x20, 0xA, 0x3000, 0x9]"
    by (simp add: is_space_def)
  show ?thesis
    using h parse_text_blank [of "[0x20, 0xA, 0x3000, 0x9]"] by simp
qed

section \<open>Correlation of hooks with captures and losses\<close>

text \<open>
  C2 (as amended). A lost line for a rod that has no pending hook at that point of the
  pass appends exactly one lost record, whose fish is the one-character string U+FF1F
  (the full-width question mark, not the ASCII one), whose weight is 0 and whose time is
  the time stamp of the lost line itself; when the pass completes, the output holds that
  record at that place.
\<close>

theorem lost_without_hook:
  assumes "splitlines (strip text) = pre @ [ll] @ post"
    and "run_lines (Map.empty, []) pre = Inr (hc, rs)"
    and "parse_line_fast ll = Inr (Some (Lost t r f w))"
    and "hc r = None"
  shows "run_lines (Map.empty, []) (pre @ [ll]) =
           Inr (hc(r := None),
                rs @ [\<lparr>record_type = ''lost'', time = t, rod = r, fish = [0xFF1F],
                       weight = Finite 0, exp_pts = 0, cost = [], bait = lost_bait\<rparr>])
       \<and> (\<forall>out. parse_text text = Inr out \<longrightarrow>
             (\<exists>more. out = rs @ [\<lparr>record_type = ''lost'', time = t, rod = r, fish = [0xFF1F],
                       weight = Finite 0, exp_pts = 0, cost = [], bait = lost_bait\<rparr>] @ more))
       \<and> (\<exists>part0 content. split_once separator ll = Some (part0, content) \<and> t = strip part0)"
proof -
  let ?R = "\<lparr>record_type = ''lost'', time = t, rod = r, fish = [0xFF1F],
             weight = Finite 0, exp_pts = 0, cost = [], bait = lost_bait\<rparr>"
  have step: "run_lines (Map.empty, []) (pre @ [ll]) = Inr (hc(r := None), rs @ [?R])"
    using run_lines_snoc [OF assms(2,3)] assms(4) by (simp add: unknown_fish_def)
  have out: "\<exists>more. out = rs @ [?R] @ more" if "parse_text text = Inr out" for out
  proof -
    from assms(1) have "splitlines (strip text) = (pre @ [ll]) @ post"
      by simp
    from parse_text_records [OF this step that] show ?thesis
      by simp
  qed
  from parse_line_fast_time [OF assms(3)] step out show ?thesis
    by simp
qed

theorem lost_without_hook_witness:
  "parse_text lost_line =
     Inr [\<lparr>record_type = ''lost'', time = ascii ''10:02'', rod = 1, fish = [0xFF1F],
           weight = Finite 0, exp_pts = 0, cost = [], bait = lost_bait\<rparr>]"
proof -
  have l: "splitlines (strip lost_line) = [] @ [lost_line] @ []"
    by (simp add: splitlines_def strip_def is_space_def is_linebreak_def example_defs
        literal_defs)
  have p: "run_lines (Map.empty, []) [] = Inr (Map.empty, [])"
    by simp
  have e: "parse_line_fast lost_line =
      Inr (Some (Lost (ascii ''10:02'') 1 unknown_fish (Finite 0)))"
    by (rule lost_line_parses)
  have n: "Map.empty (1::int) = (None :: event option)"
    by simp
  from lost_without_hook [OF l p e n] l show ?thesis
    by (simp add: parse_text_def)
qed

theorem lost_without_hook_counterexample:
  "parse_text lost_line =
     Inr [\<lparr>record_type = ''lost'', time = ascii ''10:02'', rod = 1, fish = [0xFF1F],
           weight = Finite 0, exp_pts = 0, cost = [], bait = lost_bait\<rparr>]
   \<and> fish \<lparr>record_type = ''lost'', time = ascii ''10:02'', rod = 1, fish = [0xFF1F],
           weight = Finite 0, exp_pts = 0, cost = [], bait = lost_bait\<rparr> \<noteq> ascii ''?''"
proof -
  have "splitlines (strip lost_line) = [lost_line]"
    by (simp add: splitlines_def strip_def is_space_def is_linebreak_def example_defs
        literal_defs)
  then show ?thesis
    by (simp add: parse_text_def lost_line_parses unknown_fish_def ascii_def)
qed








section \<open>The record cache\<close>

lemma delete_first_key:
  assumes "distinct (map fst ((k, v) # al))"
  shows "AList.delete k ((k, v) # al) = al"
proof -
  from assms have "k \<notin> fst ` set al"
    by simp
  then have "AList.delete k al = al"
    by (induction al) (auto simp: AList.delete_eq)
  then show ?thesis
    by (simp add: AList.delete_eq)
qed

lemma length_update_le: "length (AList.update k v al) \<le> Suc (length al)"
  by (induction al) auto

lemma cache_set_below:
  "int (length (cache c)) < max_size c \<Longrightarrow>
   cache_set c key records = Inr (c\<lparr>cache := AList.update key records (cache c)\<rparr>)"
  by (simp add: cache_set_def)

lemma cache_set_full:
  assumes "max_size c \<le> int (length (cache c))" and "distinct (map fst (cache c))"
    and "cache c = first # others"
  shows "cache_set c key records = Inr (c\<lparr>cache := AList.update key records others\<rparr>)"
proof -
  obtain k v where f: "first = (k, v)"
    by (cases first)
  with assms(2,3) have "AList.delete k (cache c) = others"
    using delete_first_key [of k v others] by simp
  with assms(1,3) f show ?thesis
    by (simp add: cache_set_def)
qed

lemma cache_set_inv:
  assumes "cache_inv n c" and "1 \<le> n"
  shows "\<exists>c'. cache_set c key records = Inr c' \<and> cache_inv n c'"
proof (cases "int (length (cache c)) < n")
  case True
  with assms have "cache_set c key records = Inr (c\<lparr>cache := AList.update key records (cache c)\<rparr>)"
    by (simp add: cache_set_below cache_inv_def)
  moreover have "cache_inv n (c\<lparr>cache := AList.update key records (cache c)\<rparr>)"
    using assms True length_update_le [of key records "cache c"]
    by (simp add: cache_inv_def distinct_update)
  ultimately show ?thesis
    by blast
next
  case False
  with assms have full: "max_size c \<le> int (length (cache c))"
    by (simp add: cache_inv_def)
  with assms obtain first others where co: "cache c = first # others"
    by (cases "cache c") (auto simp: cache_inv_def)
  from assms have d: "distinct (map fst (cache c))"
    by (simp add: cache_inv_def)
  have "cache_set c key records = Inr (c\<lparr>cache := AList.update key records others\<rparr>)"
    using full d co by (rule cache_set_full)
  moreover have "cache_inv n (c\<lparr>cache := AList.update key records others\<rparr>)"
    using assms co length_update_le [of key records others]
    by (simp add: cache_inv_def distinct_update)
  ultimately show ?thesis
    by blast
qed

lemma run_ops_inv:
  assumes "cache_inv n c" and "1 \<le> n"
  shows "\<exists>c'. run_ops c ops = Inr c' \<and> cache_inv n c'"
  using assms(1)
proof (induction ops arbitrary: c)
  case Nil
  then show ?case by simp
next
  case (Cons op ops)
  show ?case
  proof (cases op)
    case (GetOp key)
    with Cons show ?thesis by simp
  next
    case (SetOp key records)
    obtain c1 where "cache_set c key records = Inr c1" and "cache_inv n c1"
      using cache_set_inv [OF Cons.prems assms(2)] by blast
    with Cons.IH [of c1] SetOp show ?thesis by simp
  qed
qed

lemma run_ops_append:
  "run_ops c (xs @ ys) = (case run_ops c xs of Inl e \<Rightarrow> Inl e | Inr c' \<Rightarrow> run_ops c' ys)"
proof (induction xs arbitrary: c)
  case Nil
  then show ?case by simp
next
  case (Cons op xs)
  then show ?case by (cases op) (auto split: sum.splits)
qed

lemma cache_set_keys:
  assumes "cache_inv n c" and "1 \<le> n" and "cache_set c key records = Inr c'"
  shows "map fst (cache c') =
     (let kept = (if n \<le> int (length (cache c)) then tl (map fst (cache c)) else map fst (cache c))
      in if key \<in> set kept then kept else kept @ [key])"
proof (cases "int (length (cache c)) < n")
  case True
  with assms have "c' = c\<lparr>cache := AList.update key records (cache c)\<rparr>"
    using cache_set_below [of c key records] by (simp add: cache_inv_def)
  with True show ?thesis
    by (simp add: update_keys)
next
  case False
  with assms have full: "max_size c \<le> int (length (cache c))"
    by (simp add: cache_inv_def)
  with assms obtain first others where co: "cache c = first # others"
    by (cases "cache c") (auto simp: cache_inv_def)
  from assms have d: "distinct (map fst (cache c))"
    by (simp add: cache_inv_def)
  from cache_set_full [OF full d co] assms(3)
  have "c' = c\<lparr>cache := AList.update key records others\<rparr>"
    by simp
  with False co show ?thesis
    by (simp add: update_keys)
qed

lemma stamps_follow:
  assumes "1 \<le> n"
    and "cache_inv n c"
    and "map fst sl = map fst (cache c)"
    and "sorted_wrt (<) (map snd sl)"
    and "\<forall>t\<in>snd ` set sl. t < i"
    and "run_ops c ops = Inr c'"
  shows "map fst (stamps n i sl ops) = map fst (cache c')
       \<and> sorted_wrt (<) (map snd (stamps n i sl ops))"
  using assms(2-6)
proof (induction ops arbitrary: c sl i)
  case Nil
  then show ?case by simp
next
  case (Cons op ops)
  show ?case
  proof (cases op)
    case (GetOp key)
    have "\<forall>t\<in>snd ` set sl. t < Suc i"
      using Cons.prems(4) by auto
    with Cons.IH [of c sl "Suc i"] Cons.prems GetOp show ?thesis
      by simp
  next
    case (SetOp key records)
    obtain c1 where c1: "cache_set c key records = Inr c1" and inv1: "cache_inv n c1"
      using cache_set_inv [OF Cons.prems(1) assms(1)] by blast
    define kept where "kept = (if n \<le> int (length sl) then tl sl else sl)"
    define sl1 where "sl1 = (if key \<in> fst ` set kept then kept else kept @ [(key, i)])"
    have len: "length sl = length (cache c)"
      using Cons.prems(2) by (metis length_map)
    have kk: "map fst kept =
        (if n \<le> int (length (cache c)) then tl (map fst (cache c)) else map fst (cache c))"
      using Cons.prems(2) len by (simp add: kept_def map_tl)
    have k1: "map fst sl1 =
        (if key \<in> set (map fst kept) then map fst kept else map fst kept @ [key])"
      by (simp add: sl1_def)
    have k2: "map fst (cache c1) =
        (if key \<in> set (map fst kept) then map fst kept else map fst kept @ [key])"
      unfolding kk using cache_set_keys [OF Cons.prems(1) assms(1) c1] by (simp only: Let_def)
    have keys: "map fst sl1 = map fst (cache c1)"
      using k1 k2 by simp
    have sub: "set kept \<subseteq> set sl"
      by (cases sl) (auto simp: kept_def)
    have sk: "sorted_wrt (<) (map snd kept)"
      using Cons.prems(3) by (cases sl) (auto simp: kept_def)
    have lt: "\<forall>t\<in>snd ` set kept. t < i"
      using Cons.prems(4) sub by auto
    have s1: "sorted_wrt (<) (map snd sl1)"
      using sk lt by (auto simp: sl1_def sorted_wrt_append)
    have b1: "\<forall>t\<in>snd ` set sl1. t < Suc i"
      using lt by (auto simp: sl1_def less_Suc_eq)
    have run1: "run_ops c1 ops = Inr c'"
      using Cons.prems(5) SetOp c1 by simp
    have "stamps n i sl (op # ops) = stamps n (Suc i) sl1 ops"
      unfolding SetOp sl1_def kept_def by (simp only: stamps.simps Let_def)
    with Cons.IH [OF inv1 keys s1 b1 run1] show ?thesis
      by simp
  qed
qed

lemma stamps_origin:
  assumes "(k, t) \<in> set (stamps n i sl ops)"
  shows "(k, t) \<in> set sl \<or> (i \<le> t \<and> t < i + length ops \<and> (\<exists>v. ops ! (t - i) = SetOp k v))"
  using assms
proof (induction ops arbitrary: sl i)
  case Nil
  then show ?case by simp
next
  case (Cons op ops)
  show ?case
  proof (cases op)
    case (GetOp key)
    with Cons.prems have "(k, t) \<in> set (stamps n (Suc i) sl ops)"
      by simp
    from Cons.IH [OF this] show ?thesis
      by (auto simp: nth_Cons' Suc_diff_le)
  next
    case (SetOp key records)
    define kept where "kept = (if n \<le> int (length sl) then tl sl else sl)"
    define sl1 where "sl1 = (if key \<in> fst ` set kept then kept else kept @ [(key, i)])"
    have sub: "set kept \<subseteq> set sl"
      by (cases sl) (auto simp: kept_def)
    have "stamps n i sl (op # ops) = stamps n (Suc i) sl1 ops"
      unfolding SetOp sl1_def kept_def by (simp only: stamps.simps Let_def)
    with Cons.prems have "(k, t) \<in> set (stamps n (Suc i) sl1 ops)"
      by simp
    from Cons.IH [OF this]
    have "(k, t) \<in> set sl1 \<or>
        (Suc i \<le> t \<and> t < Suc i + length ops \<and> (\<exists>v. ops ! (t - Suc i) = SetOp k v))" .
    then show ?thesis
    proof
      assume "(k, t) \<in> set sl1"
      then have "(k, t) \<in> set sl \<or> (k = key \<and> t = i)"
        using sub by (auto simp: sl1_def split: if_splits)
      then show ?thesis
        using SetOp by auto
    next
      assume "Suc i \<le> t \<and> t < Suc i + length ops \<and> (\<exists>v. ops ! (t - Suc i) = SetOp k v)"
      then show ?thesis
        by (auto simp: nth_Cons' Suc_diff_le)
    qed
  qed
qed


text \<open>
  C9. From an empty cache of capacity \<open>max_size \<ge> 1\<close>, every sequence of reads and
  writes runs without an exception and leaves at most \<open>max_size\<close> entries. In the state
  it leaves, a write below capacity evicts nothing; a write at capacity evicts the first
  entry of the dictionary and no other, and then assigns the key: the entries that stay
  keep their order and a key that is new goes last. With every key stamped by the index
  of the operation that inserted it, the stamps grow strictly along the dictionary, so
  the first entry, the one evicted, is the key inserted longest ago among those present.
  A read leaves the state as it is, so reading a key does not save it from eviction.
\<close>

theorem cache_fifo:
  assumes "1 \<le> n"
  shows "\<exists>c. run_ops (RecordCache_init n) ops = Inr c \<and> max_size c = n
       \<and> int (length (cache c)) \<le> n
       \<and> (\<forall>key. run_ops (RecordCache_init n) (ops @ [GetOp key]) = Inr c)
       \<and> (\<forall>key records. int (length (cache c)) < n \<longrightarrow>
             cache_set c key records =
               Inr (c\<lparr>cache := AList.update key records (cache c)\<rparr>))
       \<and> (\<forall>key records. int (length (cache c)) = n \<longrightarrow>
             (\<exists>first others. cache c = first # others \<and> fst first \<notin> fst ` set others
                \<and> cache_set c key records =
                     Inr (c\<lparr>cache := AList.update key records others\<rparr>)
                \<and> map fst (AList.update key records others) =
                     (if key \<in> set (map fst others) then map fst others
                      else map fst others @ [key])))
       \<and> map fst (stamps n 0 [] ops) = map fst (cache c)
       \<and> sorted_wrt (<) (map snd (stamps n 0 [] ops))
       \<and> (\<forall>k t. (k, t) \<in> set (stamps n 0 [] ops) \<longrightarrow>
             t < length ops \<and> (\<exists>v. ops ! t = SetOp k v))"
proof -
  have inv0: "cache_inv n (RecordCache_init n :: ('a, 'b) RecordCache)"
    using assms by (simp add: cache_inv_def RecordCache_init_def)
  then obtain c :: "('a, 'b) RecordCache"
    where run: "run_ops (RecordCache_init n) ops = Inr c" and inv: "cache_inv n c"
    using run_ops_inv [OF _ assms] by blast
  have st: "map fst (stamps n 0 [] ops) = map fst (cache c)
      \<and> sorted_wrt (<) (map snd (stamps n 0 [] ops))"
    by (rule stamps_follow [OF assms inv0 _ _ _ run]) (simp_all add: RecordCache_init_def)
  have origin: "t < length ops \<and> (\<exists>v. ops ! t = SetOp k v)"
    if "(k, t) \<in> set (stamps n 0 [] ops)" for k t
    using stamps_origin [OF that] by simp
  have rd: "run_ops (RecordCache_init n) (ops @ [GetOp key]) = Inr c" for key
    using run by (simp add: run_ops_append)
  have below: "cache_set c key records = Inr (c\<lparr>cache := AList.update key records (cache c)\<rparr>)"
    if "int (length (cache c)) < n" for key records
    using that inv by (simp add: cache_set_below cache_inv_def)
  have full: "\<exists>first others. cache c = first # others \<and> fst first \<notin> fst ` set others
                \<and> cache_set c key records =
                     Inr (c\<lparr>cache := AList.update key records others\<rparr>)
                \<and> map fst (AList.update key records others) =
                     (if key \<in> set (map fst others) then map fst others
                      else map fst others @ [key])"
    if "int (length (cache c)) = n" for key records
  proof -
    from that assms obtain first others where co: "cache c = first # others"
      by (cases "cache c") auto
    from inv have d: "distinct (map fst (cache c))" and m: "max_size c = n"
      by (simp_all add: cache_inv_def)
    from that m have "max_size c \<le> int (length (cache c))"
      by simp
    then have "cache_set c key records = Inr (c\<lparr>cache := AList.update key records others\<rparr>)"
      using d co by (rule cache_set_full)
    moreover from d co have "fst first \<notin> fst ` set others"
      by simp
    ultimately show ?thesis
      using co by (simp add: update_keys)
  qed
  from run inv rd below full st origin show ?thesis
    unfolding cache_inv_def by blast
qed

theorem cache_fifo_witness:
  "(1::int) \<le> 2 \<and>
   run_ops (RecordCache_init 2) [SetOp ''a'' (1::nat), SetOp ''b'' 2, GetOp ''a'', SetOp ''c'' 3] =
     Inr \<lparr>max_size = 2, cache = [(''b'', 2), (''c'', 3)]\<rparr>
   \<and> int (length [(''b'', 2::nat), (''c'', 3)]) \<le> 2
   \<and> stamps 2 0 [] [SetOp ''a'' (1::nat), SetOp ''b'' 2, GetOp ''a'', SetOp ''c'' 3] =
       [(''b'', 1), (''c'', 3)]"
proof -
  have h: "(1::int) \<le> 2"
    by simp
  have e: "run_ops (RecordCache_init 2) [SetOp ''a'' (1::nat), SetOp ''b'' 2, GetOp ''a'', SetOp ''c'' 3] =
     Inr \<lparr>max_size = 2, cache = [(''b'', 2), (''c'', 3)]\<rparr>"
    by (simp add: RecordCache_init_def cache_set_def cache_get_def AList.delete_eq)
  have s: "stamps 2 0 [] [SetOp ''a'' (1::nat), SetOp ''b'' 2, GetOp ''a'', SetOp ''c'' 3] =
       [(''b'', 1), (''c'', 3)]"
    by simp
  from cache_fifo [OF h, of "[SetOp ''a'' (1::nat), SetOp ''b'' 2, GetOp ''a'', SetOp ''c'' 3]"] e s
  show ?thesis
    by auto
qed


section \<open>The rounding of floats\<close>

text \<open>
  The model of binary64 does what the standard asks: \<open>ilog2\<close> is the binary exponent,
  a number that is a double (a significand below \<open>2^53\<close> times a power of two from
  \<open>2^-1074\<close> to \<open>2^971\<close>) is rounded to itself, and a finite result is within half a
  unit in the last place of the number rounded. A token of digits and full stops is a
  float literal exactly when it has at most one full stop and at least one digit.
\<close>

lemma pow2_powi: "pow2 e = 2 powi e"
  by (simp add: pow2_def power_int_def inverse_eq_divide power_one_over)

lemma ilog2_bounds:
  assumes "0 < q"
  shows "2 powi (ilog2 q) \<le> q \<and> q < 2 powi (ilog2 q + 1)"
proof (cases "1 \<le> q")
  case True
  define n where "n = \<lfloor>q\<rfloor>"
  have "of_int n \<le> q" "q < of_int n + 1"
    unfolding n_def by linarith+
  moreover have "1 \<le> n"
    using True by (simp add: n_def le_floor_iff)
  ultimately have n: "1 \<le> n" "of_int n \<le> q" "q < of_int n + 1"
    by simp_all
  then have pos: "0 < n"
    by simp
  have b1: "1 \<le> bitlen n"
    using pos by (simp add: bitlen_alt_def)
  from bitlen_bounds [OF pos]
  have lo: "(2::int) ^ nat (bitlen n - 1) \<le> n" and hi: "n < 2 ^ nat (bitlen n)"
    by simp_all
  have k: "ilog2 q = bitlen n - 1"
    using True by (simp add: ilog2_def n_def)
  have "(2::rat) powi (bitlen n - 1) = of_int (2 ^ nat (bitlen n - 1))"
    using b1 by (simp add: power_int_def)
  also have "\<dots> \<le> of_int n"
    using lo by (simp only: of_int_le_iff)
  finally have l: "2 powi (ilog2 q) \<le> q"
    using n(2) k by simp
  have "of_int n + 1 \<le> (of_int (2 ^ nat (bitlen n)) :: rat)"
    using hi by (metis of_int_1 of_int_add of_int_le_iff zless_imp_add1_zle)
  also have "\<dots> = 2 powi (bitlen n)"
    using b1 by (simp add: power_int_def)
  finally have "q < 2 powi (ilog2 q + 1)"
    using n(3) k by simp
  with l show ?thesis
    by simp
next
  case False
  define r where "r = 1 / q"
  define m where "m = \<lceil>r\<rceil> - 1"
  have r: "1 < r"
    using assms False by (simp add: r_def)
  have "of_int m < r" "r \<le> of_int m + 1"
    unfolding m_def by linarith+
  moreover have "1 \<le> m"
    using r by (simp add: m_def less_ceiling_iff)
  ultimately have m: "of_int m < r" "r \<le> of_int m + 1" "1 \<le> m"
    by simp_all
  then have pos: "0 < m"
    by simp
  have b1: "1 \<le> bitlen m"
    using pos by (simp add: bitlen_alt_def)
  from bitlen_bounds [OF pos]
  have lo: "(2::int) ^ nat (bitlen m - 1) \<le> m" and hi: "m < 2 ^ nat (bitlen m)"
    by simp_all
  have k: "ilog2 q = - bitlen m"
    using False by (simp add: ilog2_def m_def r_def)
  have "of_int m + 1 \<le> (of_int (2 ^ nat (bitlen m)) :: rat)"
    using hi by (metis of_int_1 of_int_add of_int_le_iff zless_imp_add1_zle)
  also have "\<dots> = 2 powi (bitlen m)"
    using b1 by (simp add: power_int_def)
  finally have "r \<le> 2 powi (bitlen m)"
    using m(2) by simp
  then have "1 / 2 powi (bitlen m) \<le> 1 / r"
    using r by (intro divide_left_mono) (simp_all add: zero_less_mult_iff)
  then have l: "2 powi (ilog2 q) \<le> q"
    using assms by (simp add: k r_def power_int_minus_divide)
  have "(2::rat) powi (bitlen m - 1) = of_int (2 ^ nat (bitlen m - 1))"
    using b1 by (simp add: power_int_def)
  also have "\<dots> \<le> of_int m"
    using lo by (simp only: of_int_le_iff)
  finally have lt: "2 powi (bitlen m - 1) < r"
    using m(1) by simp
  have "q = 1 / r"
    by (simp add: r_def)
  also have "\<dots> < 1 / 2 powi (bitlen m - 1)"
    by (rule divide_strict_left_mono [OF lt]) (use r in \<open>simp_all add: zero_less_mult_iff\<close>)
  also have "\<dots> = 2 powi (- (bitlen m - 1))"
    by (rule power_int_minus_divide [symmetric])
  also have "- (bitlen m - 1) = ilog2 q + 1"
    by (simp add: k)
  finally have "q < 2 powi (ilog2 q + 1)" .
  with l show ?thesis
    by simp
qed

lemma round_half_even_of_int: "round_half_even (of_int m) = m"
  by (simp add: round_half_even_def)

lemma round_half_even_near: "\<bar>of_int (round_half_even x) - x\<bar> \<le> 1 / 2"
proof -
  have "of_int \<lfloor>x\<rfloor> \<le> x" "x < of_int \<lfloor>x\<rfloor> + 1"
    by linarith+
  then show ?thesis
    by (auto simp: round_half_even_def Let_def)
qed

lemma round_double_exact:
  assumes "0 \<le> m" and "m < 2 ^ 53" and "- 1074 \<le> e" and "e \<le> 971"
  shows "round_double (of_int m * pow2 e) = Finite (of_int m * pow2 e)"
proof (cases "m = 0")
  case True
  then show ?thesis
    by (simp add: round_double_def)
next
  case False
  define q :: rat where "q = of_int m * 2 powi e"
  have mpos: "1 \<le> m"
    using assms(1) False by simp
  have qpos: "0 < q"
    using mpos by (simp add: q_def)
  define e' where "e' = max (ilog2 q - 52) (- 1074)"
  have "of_int m < (2::rat) ^ 53"
    using assms(2) by (metis of_int_less_iff of_int_numeral of_int_power)
  then have "q < 2 ^ 53 * 2 powi e"
    unfolding q_def by (intro mult_strict_right_mono) simp_all
  also have "\<dots> = 2 powi (53 + e)"
    by (simp add: power_int_add)
  finally have up: "q < 2 powi (53 + e)" .
  have "2 powi (ilog2 q) \<le> q"
    using ilog2_bounds [OF qpos] by simp
  with up have lt: "(2::rat) powi (ilog2 q) < 2 powi (53 + e)"
    by simp
  have "ilog2 q < 53 + e"
  proof (rule ccontr)
    assume "\<not> ilog2 q < 53 + e"
    then have "53 + e \<le> ilog2 q"
      by simp
    then have "(2::rat) powi (53 + e) \<le> 2 powi (ilog2 q)"
      by (intro power_int_increasing) simp_all
    with lt show False
      by simp
  qed
  then have le: "e' \<le> e"
    using assms(3) by (simp add: e'_def)
  define j where "j = nat (e - e')"
  have ee: "e = e' + int j"
    using le by (simp add: j_def)
  have "q / 2 powi e' = of_int m * 2 powi (int j)"
    by (simp add: q_def ee power_int_add)
  also have "\<dots> = of_int (m * 2 ^ j)"
    by simp
  finally have quo: "q / 2 powi e' = of_int (m * 2 ^ j)" .
  have v: "of_int (round_half_even (q / 2 powi e')) * 2 powi e' = q"
    unfolding quo round_half_even_of_int by (simp add: q_def ee power_int_add)
  have "(2::rat) powi (53 + e) \<le> 2 powi 1024"
    using assms(4) by (intro power_int_increasing) simp_all
  with up have "\<not> 2 powi 1024 \<le> q"
    by simp
  with qpos v show ?thesis
    unfolding pow2_powi q_def [symmetric] round_double_def e'_def [symmetric] Let_def
    by (simp add: e'_def)
qed

lemma round_double_near:
  assumes "0 < q" and "round_double q = Finite v"
  shows "\<bar>v - q\<bar> \<le> pow2 (max (ilog2 q - 52) (- 1074)) / 2"
proof -
  define p where "p = pow2 (max (ilog2 q - 52) (- 1074))"
  have ppos: "0 < p"
    by (simp add: p_def pow2_powi)
  from assms have v: "v = of_int (round_half_even (q / p)) * p"
    by (auto simp: round_double_def Let_def p_def split: if_splits)
  have "v - q = (of_int (round_half_even (q / p)) - q / p) * p"
    using ppos by (simp add: v field_simps)
  then have "\<bar>v - q\<bar> = \<bar>of_int (round_half_even (q / p)) - q / p\<bar> * p"
    using ppos by (simp add: abs_mult)
  also have "\<dots> \<le> 1 / 2 * p"
    using ppos round_half_even_near [of "q / p"] by (intro mult_right_mono) simp_all
  finally show ?thesis
    by (simp add: p_def)
qed

lemma py_float_raises_iff:
  assumes "list_all numch s"
  shows "py_float s = Inl ValueError \<longleftrightarrow>
     \<not> (length (filter (\<lambda>c. c = 0x2E) s) \<le> 1 \<and> (\<exists>c\<in>set s. is_digit c))"
proof -
  define ip where "ip = takeWhile is_digit s"
  define r where "r = dropWhile is_digit s"
  have s: "s = ip @ r"
    by (simp add: ip_def r_def)
  have pf: "py_float s =
     (case r of
        [] \<Rightarrow> if ip = [] then Inl ValueError
              else Inr (round_double (of_nat (digits_val ip)))
      | c # fp \<Rightarrow>
          if c = 0x2E \<and> list_all is_digit fp \<and> (ip \<noteq> [] \<or> fp \<noteq> [])
          then Inr (round_double (of_nat (digits_val (ip @ fp)) / 10 ^ length fp))
          else Inl ValueError)"
    unfolding py_float_def ip_def r_def Let_def by (rule refl)
  have nd: "\<not> is_digit 0x2E"
    by (rule char_facts)
  have ipd: "\<forall>c\<in>set ip. is_digit c"
    by (auto simp: ip_def dest: set_takeWhileD)
  then have ipf: "filter (\<lambda>c. c = 0x2E) ip = []"
    using nd by (auto simp: filter_empty_conv)
  show ?thesis
  proof (cases r)
    case Nil
    have "py_float s = Inl ValueError \<longleftrightarrow> ip = []"
      by (simp add: pf Nil)
    moreover have "(\<exists>c\<in>set s. is_digit c) \<longleftrightarrow> ip \<noteq> []"
      using Nil s ipd by (cases ip) auto
    moreover have "filter (\<lambda>c. c = 0x2E) s = []"
      using Nil s ipf by simp
    ultimately show ?thesis
      by simp
  next
    case (Cons c fp)
    have "\<not> is_digit c"
      using Cons hd_dropWhile [of is_digit s] by (simp add: r_def)
    moreover have "numch c"
      using assms s Cons by (simp add: list_all_iff)
    ultimately have c: "c = 0x2E"
      by (simp add: numch_def)
    have fpn: "\<forall>x\<in>set fp. is_digit x \<or> x = 0x2E"
      using assms s Cons by (simp add: list_all_iff numch_def)
    have py: "py_float s = Inl ValueError \<longleftrightarrow> \<not> (list_all is_digit fp \<and> (ip \<noteq> [] \<or> fp \<noteq> []))"
      using c by (simp add: pf Cons)
    have cnt: "length (filter (\<lambda>c. c = 0x2E) s) = Suc (length (filter (\<lambda>c. c = 0x2E) fp))"
      using s Cons c ipf by simp
    show ?thesis
    proof (cases "list_all is_digit fp")
      case True
      then have "filter (\<lambda>c. c = 0x2E) fp = []"
        using nd by (auto simp: filter_empty_conv list_all_iff)
      moreover have "(\<exists>x\<in>set s. is_digit x) \<longleftrightarrow> ip \<noteq> [] \<or> fp \<noteq> []"
        using True s Cons c nd ipd by (cases ip; cases fp) (auto simp: list_all_iff)
      ultimately show ?thesis
        using py cnt True by simp
    next
      case False
      then obtain x where "x \<in> set fp" "\<not> is_digit x"
        by (auto simp: list_all_iff)
      with fpn have "0x2E \<in> set fp"
        by auto
      then have "filter (\<lambda>c. c = 0x2E) fp \<noteq> []"
        by (auto simp: filter_empty_conv)
      then have "0 < length (filter (\<lambda>c. c = 0x2E) fp)"
        by simp
      with py cnt False show ?thesis
        by simp
    qed
  qed
qed


section \<open>What the groups of a match hold\<close>

lemma one_member: "(g, r) \<in> set (one P s) \<Longrightarrow> \<exists>c. g = [c] \<and> P c"
  by (auto simp: one_def split: list.splits if_splits)

lemma plus_lazy_member:
  assumes "(g, r) \<in> set (plus_lazy P s)"
  shows "g \<noteq> [] \<and> list_all P g"
proof -
  from assms obtain n where n: "1 \<le> n" "n \<le> length (takeWhile P s)" and g: "g = take n s"
    by (auto simp: plus_lazy_def)
  have "length (takeWhile P s) \<le> length s"
    by (rule length_takeWhile_le)
  with n g have ne: "g \<noteq> []"
    by auto
  have "take n s = take n (takeWhile P s @ dropWhile P s)"
    by simp
  also have "\<dots> = take n (takeWhile P s)"
    using n(2) by (simp del: takeWhile_dropWhile_id)
  finally have "set g \<subseteq> set (takeWhile P s)"
    using g by (simp add: set_take_subset)
  then have "list_all P g"
    by (auto simp: list_all_iff dest: set_takeWhileD)
  with ne show ?thesis
    by simp
qed

lemma plus_greedy_member: "(g, r) \<in> set (plus_greedy P s) \<Longrightarrow> g \<noteq> [] \<and> list_all P g"
  using plus_lazy_member [of g r P s] by (simp add: plus_greedy_def)

lemma alt_lit_member: "(g, r) \<in> set (alt (lit a) (lit b) s) \<Longrightarrow> g = a \<or> g = b"
  by (auto simp: alt_def lit_def split: if_splits)

lemma hook_at_groups:
  assumes "(g1, g2, g3, g4) \<in> set (hook_at s)"
  shows "(\<exists>d. g1 = [d] \<and> is_digit d) \<and> g2 \<noteq> [] \<and> g3 \<noteq> [] \<and> list_all numch g3
       \<and> (g4 = unit_kg \<or> g4 = unit_g)"
proof -
  from assms obtain r1 r2 r3 r4 r5 r6 r7 where
    "(g1, r2) \<in> set (one is_digit r1)" "(g2, r4) \<in> set (plus_lazy dot r3)"
    "(g3, r6) \<in> set (plus_greedy numch r5)"
    "(g4, r7) \<in> set (alt (lit unit_kg) (lit unit_g) r6)"
    by (auto simp: hook_at_def)
  then show ?thesis
    using one_member plus_lazy_member plus_greedy_member alt_lit_member by metis
qed

lemma capture_at_groups:
  assumes "(g1, g2, g3, g4, g5, g6, g7) \<in> set (capture_at s)"
  shows "(\<exists>d. g1 = [d] \<and> is_digit d) \<and> g2 \<noteq> [] \<and> g3 \<noteq> [] \<and> list_all numch g3
       \<and> (g4 = unit_gongjin \<or> g4 = unit_ke) \<and> g5 \<noteq> [] \<and> list_all is_digit g5"
proof -
  from assms obtain r1 r2 r3 r4 r6 r7 r8 r10 r11 where
    "(g1, r2) \<in> set (one is_digit r1)" "(g2, r4) \<in> set (plus_lazy dot r3)"
    "(g3, r7) \<in> set (plus_greedy numch r6)"
    "(g4, r8) \<in> set (alt (lit unit_gongjin) (lit unit_ke) r7)"
    "(g5, r11) \<in> set (plus_greedy is_digit r10)"
    by (auto simp: capture_at_def)
  then show ?thesis
    using one_member plus_lazy_member plus_greedy_member alt_lit_member by metis
qed

lemma lost_at_groups: "g1 \<in> set (lost_at s) \<Longrightarrow> \<exists>d. g1 = [d] \<and> is_digit d"
  by (auto simp: lost_at_def dest: one_member)

lemma search_member: "search m s = Some x \<Longrightarrow> \<exists>s'. x \<in> set (m s')"
proof (induction s)
  case Nil
  then show ?case
    by (cases "m []") (auto intro: exI [of _ "[]"])
next
  case (Cons c s)
  show ?case
  proof (cases "m (c # s)")
    case Nil
    with Cons show ?thesis by simp
  next
    case (Cons y ys)
    with Cons.prems have "x \<in> set (m (c # s))"
      by simp
    then show ?thesis by blast
  qed
qed

lemma py_int_digits:
  "g \<noteq> [] \<Longrightarrow> list_all is_digit g \<Longrightarrow>
   py_int g = (if int_max_str_digits < length g then Inl ValueError
               else Inr (int (digits_val g)))"
  by (simp add: py_int_def)

lemma py_int_limit:
  "py_int (replicate 4301 0x31) = Inl ValueError"
  "py_int (replicate 4300 0x31) \<noteq> Inl ValueError"
  by (simp_all add: py_int_def int_max_str_digits_def list_all_iff char_facts)

lemma strip_idem: "strip (strip s) = strip s"
proof -
  define a where "a = dropWhile is_space s"
  define b where "b = rev (dropWhile is_space (rev a))"
  have sb: "strip s = b"
    by (simp add: strip_def a_def b_def)
  have ab: "a = b @ rev (takeWhile is_space (rev a))"
  proof -
    have "rev a = takeWhile is_space (rev a) @ dropWhile is_space (rev a)"
      by simp
    then have "rev (rev a) = rev (takeWhile is_space (rev a) @ dropWhile is_space (rev a))"
      by (simp only:)
    then show ?thesis
      by (simp add: b_def del: takeWhile_dropWhile_id)
  qed
  have lead: "dropWhile is_space b = b"
  proof (cases b)
    case Nil
    then show ?thesis by simp
  next
    case (Cons x xs)
    from ab have "a = x # (xs @ rev (takeWhile is_space (rev a)))"
      unfolding Cons by simp
    then obtain rest where ar: "a = x # rest"
      by blast
    have "a \<noteq> [] \<Longrightarrow> \<not> is_space (hd a)"
      unfolding a_def by (rule hd_dropWhile)
    with ar have "\<not> is_space x"
      by simp
    with Cons show ?thesis by simp
  qed
  have trail: "dropWhile is_space (rev b) = rev b"
    by (simp add: b_def)
  have "strip b = b"
    unfolding strip_def lead trail by simp
  with sb show ?thesis
    by simp
qed

lemma py_float_error: "py_float s = Inl e \<Longrightarrow> e = ValueError"
  by (auto simp: py_float_def Let_def split: list.splits if_splits)

lemma parse_weight_error: "parse_weight v u = Inl e \<longleftrightarrow> py_float v = Inl e"
  by (auto simp: parse_weight_def split: sum.splits)

section \<open>Exceptions of the classifier\<close>

lemma case_weight_raises:
  "(case parse_weight g3 g4 of Inl e' \<Rightarrow> Inl e' | Inr w \<Rightarrow> Inr (f w)) = Inl e \<longleftrightarrow>
     py_float g3 = Inl e"
  by (auto simp: parse_weight_def split: sum.splits)

lemma parse_text_completes_iff:
  "(\<exists>out. parse_text text = Inr out) \<longleftrightarrow>
     (\<exists>st'. run_lines (Map.empty, []) (splitlines (strip text)) = Inr st')"
proof (cases "run_lines (Map.empty, []) (splitlines (strip text))")
  case (Inl e)
  then show ?thesis
    by (simp add: parse_text_def)
next
  case (Inr st)
  then show ?thesis
    by (cases st) (simp add: parse_text_def)
qed

lemma parse_line_fast_raises_iff:
  "parse_line_fast line = Inl e \<longleftrightarrow>
     e = ValueError \<and>
     (\<exists>part0 content g1 g2 g3 g4.
        split_once separator line = Some (part0, content) \<and>
        (contains hook_marker content \<and> search hook_at content = Some (g1, g2, g3, g4) \<and>
         py_float g3 = Inl ValueError \<or>
         \<not> contains hook_marker content \<and> contains capture_marker content \<and>
         (\<exists>g5 g6 g7. search capture_at content = Some (g1, g2, g3, g4, g5, g6, g7) \<and>
            (py_float g3 = Inl ValueError \<or> int_max_str_digits < length g5))))"
proof (cases "split_once separator line")
  case None
  then show ?thesis
    by (simp add: parse_line_fast_def)
next
  case (Some pc)
  obtain part0 content where pc: "pc = (part0, content)"
    by (cases pc)
  note sp = Some [unfolded pc]
  show ?thesis
  proof (cases "contains hook_marker content")
    case hook: True
    show ?thesis
    proof (cases "search hook_at content")
      case None
      with sp hook show ?thesis
        by (simp add: parse_line_fast_def)
    next
      case (Some g)
      obtain g1 g2 g3 g4 where g: "g = (g1, g2, g3, g4)"
        by (cases g)
      note se = Some [unfolded g]
      from search_member [OF se] hook_at_groups obtain d where "g1 = [d]" "is_digit d"
        by blast
      then have "py_int g1 = Inr (int (the (digit_val d)))"
        by (simp add: py_int_digit)
      then have "parse_line_fast line = Inl e \<longleftrightarrow> py_float g3 = Inl e"
        using sp hook se by (simp add: parse_line_fast_def case_weight_raises)
      moreover have "py_float g3 = Inl e \<longleftrightarrow> e = ValueError \<and> py_float g3 = Inl ValueError"
        using py_float_error [of g3 e] by auto
      ultimately show ?thesis
        using sp hook se by simp
    qed
  next
    case nohook: False
    show ?thesis
    proof (cases "contains capture_marker content")
      case cap: True
      show ?thesis
      proof (cases "search capture_at content")
        case None
        with sp nohook cap show ?thesis
          by (simp add: parse_line_fast_def)
      next
        case (Some g)
        obtain g1 g2 g3 g4 g5 g6 g7 where g: "g = (g1, g2, g3, g4, g5, g6, g7)"
          by (cases g)
        note se = Some [unfolded g]
        from search_member [OF se] capture_at_groups obtain d
          where "g1 = [d]" "is_digit d" and g5: "g5 \<noteq> []" "list_all is_digit g5"
          by blast
        then have i1: "py_int g1 = Inr (int (the (digit_val d)))"
          and i5: "py_int g5 = (if int_max_str_digits < length g5 then Inl ValueError
                                else Inr (int (digits_val g5)))"
          using py_int_digit [of d] py_int_digits [of g5] by simp_all
        have "parse_line_fast line =
            (case parse_weight g3 g4 of
               Inl e' \<Rightarrow> Inl e'
             | Inr w \<Rightarrow>
                 (case py_int g5 of
                    Inl e' \<Rightarrow> Inl e'
                  | Inr x \<Rightarrow> Inr (Some (Capture (strip part0) (int (the (digit_val d)))
                               (take 10 g2) w x (g6 @ seconds_mark) g7))))"
          using sp nohook cap se i1 by (simp add: parse_line_fast_def)
        then have "parse_line_fast line = Inl e \<longleftrightarrow>
            py_float g3 = Inl e \<or>
            (\<exists>x. py_float g3 = Inr x) \<and> e = ValueError \<and> int_max_str_digits < length g5"
          using i5 by (auto simp: parse_weight_def split: sum.splits if_splits)
        moreover have "py_float g3 = Inl e \<longleftrightarrow> e = ValueError \<and> py_float g3 = Inl ValueError"
          using py_float_error [of g3 e] by auto
        moreover have "(\<exists>x. py_float g3 = Inr x) \<or> py_float g3 = Inl ValueError"
          using py_float_error [of g3] by (cases "py_float g3") auto
        ultimately have "parse_line_fast line = Inl e \<longleftrightarrow>
            e = ValueError \<and> (py_float g3 = Inl ValueError \<or> int_max_str_digits < length g5)"
          by blast
        then show ?thesis
          using sp nohook cap se by simp
      qed
    next
      case nocap: False
      show ?thesis
      proof (cases "contains lost_marker content \<and> search lost_at content \<noteq> None")
        case True
        then obtain g1 where se: "search lost_at content = Some g1"
          by auto
        from search_member [OF se] lost_at_groups obtain d where "g1 = [d]" "is_digit d"
          by blast
        then have "py_int g1 = Inr (int (the (digit_val d)))"
          by (simp add: py_int_digit)
        with sp nohook nocap True se show ?thesis
          by (simp add: parse_line_fast_def)
      next
        case False
        with sp nohook nocap show ?thesis
          by (auto simp: parse_line_fast_def)
      qed
    qed
  qed
qed

lemma run_lines_error: "run_lines st ls = Inl e \<Longrightarrow> \<exists>l\<in>set ls. parse_line_fast l = Inl e"
  by (induction ls arbitrary: st) (auto split: sum.splits option.splits)

lemma run_lines_completes_iff:
  "(\<exists>st'. run_lines st ls = Inr st') \<longleftrightarrow> (\<forall>l\<in>set ls. \<forall>e. parse_line_fast l \<noteq> Inl e)"
proof (induction ls arbitrary: st)
  case Nil
  then show ?case by simp
next
  case (Cons l ls)
  show ?case
  proof (cases "parse_line_fast l")
    case (Inl e)
    then show ?thesis by auto
  next
    case (Inr p)
    then show ?thesis
      using Cons.IH by (cases p) auto
  qed
qed

text \<open>
  C1 (as amended). For every line the classifier either returns Unrecognized or one
  event, or it raises \<open>ValueError\<close>. It raises exactly when the hook or the capture
  pattern matched and a number it captured does not convert: the weight token is not a
  float literal (such as \<open>1.2.3\<close>: a token of digits and full stops is a float literal
  when it has at most one full stop and at least one digit), or, on a capture line, the
  experience has more digits than \<open>int\<close> reads (more than 4300). Such a line is not
  treated as Unrecognized. \<open>parse_text\<close> has no handler: it completes exactly when no
  line raises, and otherwise the \<open>ValueError\<close> of a line leaves it; the handler is in
  \<open>analyze\<close>, which then shows the error dialog.
\<close>

theorem classifier_raises_on_bad_weight:
  "(parse_line_fast line = Inl e \<longleftrightarrow>
     e = ValueError \<and>
     (\<exists>part0 content g1 g2 g3 g4.
        split_once separator line = Some (part0, content) \<and>
        (contains hook_marker content \<and> search hook_at content = Some (g1, g2, g3, g4) \<and>
         py_float g3 = Inl ValueError \<or>
         \<not> contains hook_marker content \<and> contains capture_marker content \<and>
         (\<exists>g5 g6 g7. search capture_at content = Some (g1, g2, g3, g4, g5, g6, g7) \<and>
            (py_float g3 = Inl ValueError \<or> int_max_str_digits < length g5)))))
   \<and> (list_all numch tok \<longrightarrow>
        (py_float tok = Inl ValueError \<longleftrightarrow>
           \<not> (length (filter (\<lambda>c. c = 0x2E) tok) \<le> 1 \<and> (\<exists>c\<in>set tok. is_digit c))))
   \<and> int_max_str_digits = 4300
   \<and> py_int (replicate 4301 0x31) = Inl ValueError
   \<and> py_int (replicate 4300 0x31) \<noteq> Inl ValueError
   \<and> (parse_line_fast line = Inl e \<longrightarrow> e = ValueError)
   \<and> (parse_line_fast line = Inr None \<or> (\<exists>ev. parse_line_fast line = Inr (Some ev))
        \<or> parse_line_fast line = Inl ValueError)
   \<and> ((\<exists>out. parse_text text = Inr out) \<longleftrightarrow>
        (\<forall>l\<in>set (splitlines (strip text)). \<forall>e'. parse_line_fast l \<noteq> Inl e'))
   \<and> (parse_text text = Inl e \<longrightarrow>
        e = ValueError \<and> (\<exists>l\<in>set (splitlines (strip text)). parse_line_fast l = Inl ValueError))
   \<and> (parse_text text = Inl e \<longrightarrow> analyze text = ParseErrorDialog e)"
proof -
  have err: "e' = ValueError" if "parse_line_fast l = Inl e'" for l e'
    using that parse_line_fast_raises_iff [of l e'] by blast
  have three: "parse_line_fast line = Inr None \<or> (\<exists>ev. parse_line_fast line = Inr (Some ev))
        \<or> parse_line_fast line = Inl ValueError"
  proof (cases "parse_line_fast line")
    case (Inl e')
    with err show ?thesis by auto
  next
    case (Inr p)
    then show ?thesis by (cases p) auto
  qed
  have compl: "(\<exists>out. parse_text text = Inr out) \<longleftrightarrow>
        (\<forall>l\<in>set (splitlines (strip text)). \<forall>e'. parse_line_fast l \<noteq> Inl e')"
    unfolding parse_text_completes_iff by (rule run_lines_completes_iff)
  have abort: "e = ValueError \<and> (\<exists>l\<in>set (splitlines (strip text)). parse_line_fast l = Inl ValueError)"
    if "parse_text text = Inl e"
  proof -
    from that have "run_lines (Map.empty, []) (splitlines (strip text)) = Inl e"
      by (auto simp: parse_text_def split: sum.splits)
    then obtain l where "l \<in> set (splitlines (strip text))" "parse_line_fast l = Inl e"
      using run_lines_error by blast
    with err show ?thesis by blast
  qed
  have lit: "list_all numch tok \<longrightarrow>
        (py_float tok = Inl ValueError \<longleftrightarrow>
           \<not> (length (filter (\<lambda>c. c = 0x2E) tok) \<le> 1 \<and> (\<exists>c\<in>set tok. is_digit c)))"
    using py_float_raises_iff [of tok] by blast
  have dialog: "analyze text = ParseErrorDialog e" if "parse_text text = Inl e"
  proof -
    have same: "parse_text (strip text) = parse_text text"
      by (simp add: parse_text_def strip_idem)
    have "strip text \<noteq> []"
    proof
      assume "strip text = []"
      then have "parse_text text = Inr []"
        by (simp add: parse_text_def splitlines_def)
      with that show False
        by simp
    qed
    with same that show ?thesis
      by (simp add: analyze_def)
  qed
  have lim: "int_max_str_digits = 4300"
    by (simp add: int_max_str_digits_def)
  from parse_line_fast_raises_iff [of line e] err [of line e] three compl abort lit lim
    py_int_limit dialog
  show ?thesis
    by blast
qed

theorem classifier_raises_on_bad_weight_witness:
  "parse_line_fast bad_weight_line = Inl ValueError
   \<and> \<not> (\<exists>out. parse_text (hook_line @ 0xA # bad_weight_line @ 0xA # lost_line) = Inr out)
   \<and> parse_text (hook_line @ 0xA # bad_weight_line @ 0xA # lost_line) = Inl ValueError
   \<and> analyze (hook_line @ 0xA # bad_weight_line @ 0xA # lost_line) = ParseErrorDialog ValueError"
proof -
  have l: "splitlines (strip (hook_line @ 0xA # bad_weight_line @ 0xA # lost_line)) =
      [hook_line, bad_weight_line, lost_line]"
    by (simp add: splitlines_def strip_def is_space_def is_linebreak_def example_defs
        literal_defs)
  have p: "parse_text (hook_line @ 0xA # bad_weight_line @ 0xA # lost_line) = Inl ValueError"
    by (simp add: parse_text_def l bad_weight_line_raises hook_line_parses)
  note w = classifier_raises_on_bad_weight
    [where ?line = bad_weight_line and ?e = ValueError
       and ?text = "hook_line @ 0xA # bad_weight_line @ 0xA # lost_line"]
  from w
  have "(\<exists>out. parse_text (hook_line @ 0xA # bad_weight_line @ 0xA # lost_line) = Inr out) \<longleftrightarrow>
        (\<forall>l\<in>set (splitlines (strip (hook_line @ 0xA # bad_weight_line @ 0xA # lost_line))).
           \<forall>e'. parse_line_fast l \<noteq> Inl e')"
    by blast
  then have a: "\<not> (\<exists>out. parse_text (hook_line @ 0xA # bad_weight_line @ 0xA # lost_line) = Inr out)"
    by (simp add: l bad_weight_line_raises)
  from w p
  have d: "analyze (hook_line @ 0xA # bad_weight_line @ 0xA # lost_line) = ParseErrorDialog ValueError"
    by blast
  from a p d bad_weight_line_raises show ?thesis
    by blast
qed

theorem classifier_never_raises_counterexample:
  "parse_line_fast bad_weight_line = Inl ValueError
   \<and> parse_text (hook_line @ 0xA # bad_weight_line @ 0xA # lost_line) = Inl ValueError"
proof -
  have l: "splitlines (strip (hook_line @ 0xA # bad_weight_line @ 0xA # lost_line)) =
      [hook_line, bad_weight_line, lost_line]"
    by (simp add: splitlines_def strip_def is_space_def is_linebreak_def example_defs
        literal_defs)
  show ?thesis
    by (simp add: parse_text_def l bad_weight_line_raises hook_line_parses)
qed


section \<open>Rod slots\<close>

lemma digit_val_range: "digit_val c = Some v \<Longrightarrow> v < 10"
  by (auto simp: digit_val_def find_Some_iff)

lemma digit_val_ascii: "v < 10 \<Longrightarrow> digit_val (0x30 + v) = Some v"
  by (simp add: digit_val_def nd_zeros_def)

text \<open>
  C5 (as amended). The patterns read the rod slot as exactly one decimal digit. For
  every hook line and every lost line that is well formed with a one-digit slot, whatever
  the digit, the classifier accepts the line and reports the digit's value as the slot;
  the value lies between 0 and 9 and each of the ten values occurs, so no sub-range of
  the digits is singled out.
\<close>

theorem single_digit_slot_accepted:
  assumes "0x20 \<notin> set t" and "is_digit d"
  shows "(name \<noteq> [] \<and> 0x3011 \<notin> set name \<and> 0xA \<notin> set name \<and> w \<noteq> [] \<and> list_all numch w
          \<and> (u = unit_kg \<or> u = unit_g) \<and> parse_weight w u = Inr x \<longrightarrow>
          parse_line_fast (t @ separator @ hook_head @ d # hook_mid @ name @ rbracket @ w @ u) =
            Inr (Some (Hook (strip t) (int (the (digit_val d))) (take 10 name) x)))
       \<and> parse_line_fast (t @ separator @ lost_head @ [d]) =
            Inr (Some (Lost (strip t) (int (the (digit_val d))) unknown_fish (Finite 0)))
       \<and> 0 \<le> int (the (digit_val d)) \<and> int (the (digit_val d)) \<le> 9
       \<and> (\<forall>v<10. is_digit (0x30 + v) \<and> digit_val (0x30 + v) = Some v)"
proof -
  have hook: "parse_line_fast (t @ separator @ hook_head @ d # hook_mid @ name @ rbracket @ w @ u) =
            Inr (Some (Hook (strip t) (int (the (digit_val d))) (take 10 name) x))"
    if "name \<noteq> []" "0x3011 \<notin> set name" "0xA \<notin> set name" "w \<noteq> []" "list_all numch w"
      "u = unit_kg \<or> u = unit_g" "parse_weight w u = Inr x"
    using parse_hook_line [OF assms that(1-6)] that(7) by simp
  have lost: "parse_line_fast (t @ separator @ lost_head @ [d]) =
            Inr (Some (Lost (strip t) (int (the (digit_val d))) unknown_fish (Finite 0)))"
    using parse_lost_line [OF assms, of "[]"] by (simp add: hook_marker_def capture_marker_def)
  from assms(2) obtain v where "digit_val d = Some v"
    by (auto simp: is_digit_def)
  then have range: "0 \<le> int (the (digit_val d)) \<and> int (the (digit_val d)) \<le> 9"
    using digit_val_range [of d v] by simp
  have all: "\<forall>v<10. is_digit (0x30 + v) \<and> digit_val (0x30 + v) = Some v"
    by (simp add: is_digit_def digit_val_ascii)
  from hook lost range all show ?thesis
    by blast
qed

theorem single_digit_slot_accepted_witness:
  "parse_line_fast (ascii ''10:00'' @ separator @ hook_head @ 0x39 # hook_mid @
       [0x9CA4, 0x9C7C] @ rbracket @ ascii ''2.5'' @ unit_kg) =
     Inr (Some (Hook (ascii ''10:00'') 9 [0x9CA4, 0x9C7C] (Finite (5 / 2))))
   \<and> parse_line_fast (ascii ''10:00'' @ separator @ lost_head @ [0x39]) =
     Inr (Some (Lost (ascii ''10:00'') 9 unknown_fish (Finite 0)))"
proof -
  have t: "0x20 \<notin> set (ascii ''10:00'')"
    by (simp add: ascii_def)
  have d: "is_digit 0x39"
    by (rule char_facts)
  have side: "[0x9CA4, 0x9C7C] \<noteq> [] \<and> 0x3011 \<notin> set [0x9CA4, 0x9C7C :: nat]
      \<and> 0xA \<notin> set [0x9CA4, 0x9C7C :: nat] \<and> ascii ''2.5'' \<noteq> []
      \<and> list_all numch (ascii ''2.5'') \<and> (unit_kg = unit_kg \<or> unit_kg = unit_g)
      \<and> parse_weight (ascii ''2.5'') unit_kg = Inr (Finite (5 / 2))"
    using weight_2_5_kg by (simp add: ascii_def numch_def char_facts)
  have v: "the (digit_val 0x39) = 9"
    by (simp add: digit_val_def nd_zeros_def)
  have s: "strip (ascii ''10:00'') = ascii ''10:00''"
    by (simp add: strip_def is_space_def ascii_def)
  from single_digit_slot_accepted [OF t d, of "[0x9CA4, 0x9C7C]" "ascii ''2.5''" unit_kg "Finite (5 / 2)"]
    side v s show ?thesis
    by simp
qed

theorem multi_digit_slot_counterexample:
  "parse_line_fast hook_line_rod12 = Inr None
   \<and> parse_line_fast lost_line_rod12 =
       Inr (Some (Lost (ascii ''10:07'') 1 unknown_fish (Finite 0)))"
  by (simp add: hook_line_rod12_unrecognized lost_line_rod12_parses)

section \<open>Fish names\<close>

text \<open>
  C8. The fish of a hook or capture event is the first ten characters (code points) of
  the name the pattern captured between the brackets: a name of eleven or more
  characters becomes exactly its first ten, a name of ten or fewer is unchanged.
\<close>

theorem fish_name_truncated:
  assumes "parse_line_fast line = Inr (Some ev)"
  shows "(\<exists>t r f w. ev = Lost t r f w) \<or>
     (\<exists>part0 content g1 name g3 g4.
        split_once separator line = Some (part0, content) \<and>
        (contains hook_marker content \<and> search hook_at content = Some (g1, name, g3, g4) \<or>
         \<not> contains hook_marker content \<and> contains capture_marker content \<and>
         (\<exists>g5 g6 g7. search capture_at content = Some (g1, name, g3, g4, g5, g6, g7))) \<and>
        ev_fish ev = take 10 name \<and>
        (11 \<le> length name \<longrightarrow> length (ev_fish ev) = 10) \<and>
        (length name \<le> 10 \<longrightarrow> ev_fish ev = name))"
proof (cases "split_once separator line")
  case None
  with assms show ?thesis
    by (simp add: parse_line_fast_def)
next
  case (Some pc)
  obtain part0 content where pc: "pc = (part0, content)"
    by (cases pc)
  note sp = Some [unfolded pc]
  show ?thesis
  proof (cases "contains hook_marker content")
    case hook: True
    with assms sp obtain g1 name g3 g4 r w
      where "search hook_at content = Some (g1, name, g3, g4)"
        and "ev = Hook (strip part0) r (take 10 name) w"
      by (auto simp: parse_line_fast_def split: option.splits sum.splits)
    with sp hook show ?thesis
      by auto
  next
    case nohook: False
    show ?thesis
    proof (cases "contains capture_marker content")
      case cap: True
      with assms sp nohook obtain g1 name g3 g4 g5 g6 g7 r w x
        where "search capture_at content = Some (g1, name, g3, g4, g5, g6, g7)"
          and "ev = Capture (strip part0) r (take 10 name) w x (g6 @ seconds_mark) g7"
        by (auto simp: parse_line_fast_def split: option.splits sum.splits)
      with sp nohook cap show ?thesis
        by auto
    next
      case False
      with assms sp nohook show ?thesis
        by (auto simp: parse_line_fast_def split: option.splits sum.splits if_splits)
    qed
  qed
qed

theorem fish_name_truncated_witness:
  "parse_line_fast long_name_line =
     Inr (Some (Hook (ascii ''10:08'') 2 (ascii ''ABCDEFGHIJ'')
                  (Finite (5404319552844595 / 4503599627370496))))
   \<and> (\<exists>name. ascii ''ABCDEFGHIJ'' = take 10 name
        \<and> (11 \<le> length name \<longrightarrow> length (ascii ''ABCDEFGHIJ'') = 10)
        \<and> (length name \<le> 10 \<longrightarrow> ascii ''ABCDEFGHIJ'' = name))"
  using fish_name_truncated [OF long_name_line_parses] long_name_line_parses
  by auto


section \<open>Weights\<close>

lemma hook_line2_match:
  "search hook_at (hook_head @ 0x31 # hook_mid @ [0x8349, 0x9C7C] @ rbracket @ ascii ''500'' @ unit_g) =
     Some ([0x31], [0x8349, 0x9C7C], ascii ''500'', unit_g)"
proof -
  have "\<exists>rest. hook_at (hook_head @ 0x31 # hook_mid @ [0x8349, 0x9C7C] @ rbracket @
      ascii ''500'' @ unit_g) = ([0x31], [0x8349, 0x9C7C], ascii ''500'', unit_g) # rest"
    by (rule hook_at_shape) (simp_all add: ascii_def char_facts numch_def)
  then show ?thesis
    by (auto intro: search_first)
qed

lemma unit_distinct: "unit_kg \<noteq> unit_g" "unit_kg \<noteq> unit_ke" "unit_gongjin \<noteq> unit_g"
  "unit_gongjin \<noteq> unit_ke"
  by (simp_all add: unit_kg_def unit_g_def unit_ke_def unit_gongjin_def ascii_def)

lemma parse_weight_grams:
  "u = unit_g \<or> u = unit_ke \<Longrightarrow>
   parse_weight v u = (case py_float v of Inl e \<Rightarrow> Inl e | Inr x \<Rightarrow> Inr (fdiv x 1000))"
  by (auto simp: parse_weight_def split: sum.splits)

lemma parse_weight_kilograms:
  "u = unit_kg \<or> u = unit_gongjin \<Longrightarrow> parse_weight v u = py_float v"
  by (auto simp: parse_weight_def unit_distinct split: sum.splits)

lemma parse_weight_Inr:
  assumes "parse_weight v u = Inr w"
  shows "\<exists>x. py_float v = Inr x \<and>
     ((u = unit_g \<or> u = unit_ke) \<and> w = fdiv x 1000 \<or> u \<noteq> unit_g \<and> u \<noteq> unit_ke \<and> w = x)"
  using assms by (auto simp: parse_weight_def split: sum.splits if_splits)

lemma classified_weight:
  assumes "parse_line_fast line = Inr (Some ev)"
  shows "(\<exists>t r f. ev = Lost t r f (Finite 0)) \<or>
     (\<exists>part0 content g1 g2 g3 g4 x.
        split_once separator line = Some (part0, content) \<and>
        (contains hook_marker content \<and> search hook_at content = Some (g1, g2, g3, g4) \<or>
         \<not> contains hook_marker content \<and> contains capture_marker content \<and>
         (\<exists>g5 g6 g7. search capture_at content = Some (g1, g2, g3, g4, g5, g6, g7))) \<and>
        py_float g3 = Inr x \<and>
        ((g4 = unit_g \<or> g4 = unit_ke) \<and> ev_weight ev = fdiv x 1000 \<or>
         (g4 = unit_kg \<or> g4 = unit_gongjin) \<and> ev_weight ev = x))"
proof (cases "split_once separator line")
  case None
  with assms show ?thesis
    by (simp add: parse_line_fast_def)
next
  case (Some pc)
  obtain part0 content where pc: "pc = (part0, content)"
    by (cases pc)
  note sp = Some [unfolded pc]
  show ?thesis
  proof (cases "contains hook_marker content")
    case hook: True
    with assms sp obtain g1 g2 g3 g4 r w
      where se: "search hook_at content = Some (g1, g2, g3, g4)"
        and pw: "parse_weight g3 g4 = Inr w"
        and ev: "ev = Hook (strip part0) r (take 10 g2) w"
      by (auto simp: parse_line_fast_def split: option.splits sum.splits)
    from search_member [OF se] hook_at_groups have u: "g4 = unit_kg \<or> g4 = unit_g"
      by blast
    from parse_weight_Inr [OF pw] obtain x where "py_float g3 = Inr x"
      and "(g4 = unit_g \<or> g4 = unit_ke) \<and> w = fdiv x 1000 \<or> g4 \<noteq> unit_g \<and> g4 \<noteq> unit_ke \<and> w = x"
      by blast
    with u sp hook se ev show ?thesis
      by auto
  next
    case nohook: False
    show ?thesis
    proof (cases "contains capture_marker content")
      case cap: True
      with assms sp nohook obtain g1 g2 g3 g4 g5 g6 g7 r w x'
        where se: "search capture_at content = Some (g1, g2, g3, g4, g5, g6, g7)"
          and pw: "parse_weight g3 g4 = Inr w"
          and ev: "ev = Capture (strip part0) r (take 10 g2) w x' (g6 @ seconds_mark) g7"
        by (auto simp: parse_line_fast_def split: option.splits sum.splits)
      from search_member [OF se] capture_at_groups have u: "g4 = unit_gongjin \<or> g4 = unit_ke"
        by blast
      from parse_weight_Inr [OF pw] obtain x where "py_float g3 = Inr x"
        and "(g4 = unit_g \<or> g4 = unit_ke) \<and> w = fdiv x 1000 \<or> g4 \<noteq> unit_g \<and> g4 \<noteq> unit_ke \<and> w = x"
        by blast
      with u sp nohook cap se ev show ?thesis
        by auto
    next
      case False
      with assms sp nohook show ?thesis
        by (auto simp: parse_line_fast_def split: option.splits sum.splits if_splits)
    qed
  qed
qed


text \<open>
  C7. The weight of every hook or capture event is the normalized weight of the number
  and unit its pattern captured. The unit a pattern captures is a gram token or a kilogram
  token, and \<open>_parse_weight\<close> treats each as such: for the gram tokens (\<open>g\<close> after a hook, U+514B
  after a capture) the weight is the float of the number divided by 1000, one correctly
  rounded division; for the kilogram tokens (\<open>kg\<close>, U+516C U+65A4) it is the float of the
  number itself, with no arithmetic. The division is exact whenever the quotient is a
  double, and within half a unit in the last place otherwise. So \<open>500g\<close> gives exactly
  0.5, and \<open>1.2kg\<close> gives the float 1.2, the binary64 number nearest to 1.2, which is
  5404319552844595 / 2^52.
\<close>

theorem weight_normalization:
  "(parse_line_fast line = Inr (Some ev) \<longrightarrow>
      (\<exists>t r f. ev = Lost t r f (Finite 0)) \<or>
      (\<exists>part0 c k1 k2 k3 k4 x.
         split_once separator line = Some (part0, c) \<and>
         (contains hook_marker c \<and> search hook_at c = Some (k1, k2, k3, k4) \<or>
          \<not> contains hook_marker c \<and> contains capture_marker c \<and>
          (\<exists>k5 k6 k7. search capture_at c = Some (k1, k2, k3, k4, k5, k6, k7))) \<and>
         py_float k3 = Inr x \<and>
         ((k4 = unit_g \<or> k4 = unit_ke) \<and> ev_weight ev = fdiv x 1000 \<or>
          (k4 = unit_kg \<or> k4 = unit_gongjin) \<and> ev_weight ev = x)))
   \<and> (search hook_at content = Some (g1, g2, g3, g4) \<longrightarrow>
      g4 = unit_g \<and> parse_weight g3 g4 =
        (case py_float g3 of Inl e \<Rightarrow> Inl e | Inr x \<Rightarrow> Inr (fdiv x 1000))
      \<or> g4 = unit_kg \<and> parse_weight g3 g4 = py_float g3)
   \<and> (search capture_at content' = Some (h1, h2, h3, h4, h5, h6, h7) \<longrightarrow>
      h4 = unit_ke \<and> parse_weight h3 h4 =
        (case py_float h3 of Inl e \<Rightarrow> Inl e | Inr x \<Rightarrow> Inr (fdiv x 1000))
      \<or> h4 = unit_gongjin \<and> parse_weight h3 h4 = py_float h3)
   \<and> (0 \<le> m \<and> m < 2 ^ 53 \<and> - 1074 \<le> e \<and> e \<le> 971 \<and> q / 1000 = of_int m * pow2 e \<longrightarrow>
        fdiv (Finite q) 1000 = Finite (q / 1000))
   \<and> (0 < q \<and> fdiv (Finite q) 1000 = Finite v \<longrightarrow>
        \<bar>v - q / 1000\<bar> \<le> pow2 (max (ilog2 (q / 1000) - 52) (- 1074)) / 2)
   \<and> parse_weight (ascii ''500'') unit_g = Inr (Finite (1 / 2))
   \<and> parse_weight (ascii ''1.2'') unit_kg = Inr (round_double (12 / 10))
   \<and> round_double (12 / 10) = Finite (5404319552844595 / 2 ^ 52)"
proof -
  have exact: "fdiv (Finite q) 1000 = Finite (q / 1000)"
    if "0 \<le> m" "m < 2 ^ 53" "- 1074 \<le> e" "e \<le> 971" "q / 1000 = of_int m * pow2 e"
    using round_double_exact [OF that(1-4)] that(5) by simp
  have near: "\<bar>v - q / 1000\<bar> \<le> pow2 (max (ilog2 (q / 1000) - 52) (- 1074)) / 2"
    if "0 < q" "fdiv (Finite q) 1000 = Finite v"
    using round_double_near [of "q / 1000" v] that by simp
  have hook: "g4 = unit_g \<and> parse_weight g3 g4 =
        (case py_float g3 of Inl e \<Rightarrow> Inl e | Inr x \<Rightarrow> Inr (fdiv x 1000))
      \<or> g4 = unit_kg \<and> parse_weight g3 g4 = py_float g3"
    if "search hook_at content = Some (g1, g2, g3, g4)"
  proof -
    from search_member [OF that] hook_at_groups have "g4 = unit_kg \<or> g4 = unit_g"
      by blast
    then show ?thesis
      using parse_weight_grams [of g4 g3] parse_weight_kilograms [of g4 g3] by blast
  qed
  have cap: "h4 = unit_ke \<and> parse_weight h3 h4 =
        (case py_float h3 of Inl e \<Rightarrow> Inl e | Inr x \<Rightarrow> Inr (fdiv x 1000))
      \<or> h4 = unit_gongjin \<and> parse_weight h3 h4 = py_float h3"
    if "search capture_at content' = Some (h1, h2, h3, h4, h5, h6, h7)"
  proof -
    from search_member [OF that] capture_at_groups have "h4 = unit_gongjin \<or> h4 = unit_ke"
      by blast
    then show ?thesis
      using parse_weight_grams [of h4 h3] parse_weight_kilograms [of h4 h3] by blast
  qed
  have r: "round_double (12 / 10) = Finite (5404319552844595 / 2 ^ 52)"
    by (simp add: float_eval)
  have k: "parse_weight (ascii ''1.2'') unit_kg = Inr (round_double (12 / 10))"
    using weight_1_2_kg r by simp
  have cls: "parse_line_fast line = Inr (Some ev) \<longrightarrow>
      (\<exists>t r f. ev = Lost t r f (Finite 0)) \<or>
      (\<exists>part0 c k1 k2 k3 k4 x.
         split_once separator line = Some (part0, c) \<and>
         (contains hook_marker c \<and> search hook_at c = Some (k1, k2, k3, k4) \<or>
          \<not> contains hook_marker c \<and> contains capture_marker c \<and>
          (\<exists>k5 k6 k7. search capture_at c = Some (k1, k2, k3, k4, k5, k6, k7))) \<and>
         py_float k3 = Inr x \<and>
         ((k4 = unit_g \<or> k4 = unit_ke) \<and> ev_weight ev = fdiv x 1000 \<or>
          (k4 = unit_kg \<or> k4 = unit_gongjin) \<and> ev_weight ev = x))"
    using classified_weight [of line ev] by blast
  from cls hook cap exact near weight_500_g k r show ?thesis
    by blast
qed

theorem weight_normalization_witness:
  "parse_line_fast hook_line2 =
     Inr (Some (Hook (ascii ''10:03'') 1 [0x8349, 0x9C7C] (Finite (1 / 2))))
   \<and> search hook_at (hook_head @ 0x31 # hook_mid @ [0x8349, 0x9C7C] @ rbracket @ ascii ''500'' @ unit_g) =
     Some ([0x31], [0x8349, 0x9C7C], ascii ''500'', unit_g)
   \<and> parse_weight (ascii ''500'') unit_g =
       (case py_float (ascii ''500'') of Inl e \<Rightarrow> Inl e | Inr x \<Rightarrow> Inr (fdiv x 1000))
   \<and> search capture_at capture_content =
       Some ([0x31], [0x9CA4, 0x9C7C], ascii ''2500'', unit_ke, ascii ''100'', ascii ''30'',
             [0x86AF, 0x8693])
   \<and> parse_weight (ascii ''2500'') unit_ke =
       (case py_float (ascii ''2500'') of Inl e \<Rightarrow> Inl e | Inr x \<Rightarrow> Inr (fdiv x 1000))
   \<and> parse_weight (ascii ''2500'') unit_ke = Inr (Finite (5 / 2))
   \<and> fdiv (Finite 500) 1000 = Finite (500 / 1000)
   \<and> \<bar>1 / 2 - 500 / 1000\<bar> \<le> pow2 (max (ilog2 (500 / 1000) - 52) (- 1074)) / 2"
proof -
  note w = weight_normalization
    [where content = "hook_head @ 0x31 # hook_mid @ [0x8349, 0x9C7C] @ rbracket @ ascii ''500'' @ unit_g"
       and ?g1.0 = "[0x31]" and ?g2.0 = "[0x8349, 0x9C7C]" and ?g3.0 = "ascii ''500''"
       and ?g4.0 = unit_g and content' = capture_content
       and ?h1.0 = "[0x31]" and ?h2.0 = "[0x9CA4, 0x9C7C]" and ?h3.0 = "ascii ''2500''"
       and ?h4.0 = unit_ke and ?h5.0 = "ascii ''100''" and ?h6.0 = "ascii ''30''"
       and ?h7.0 = "[0x86AF, 0x8693]" and m = 1 and e = "- 1" and q = 500 and v = "1 / 2"
       and ?line = hook_line2
       and ev = "Hook (ascii ''10:03'') 1 [0x8349, 0x9C7C] (Finite (1 / 2))"]
  have side: "(0::int) \<le> 1 \<and> (1::int) < 2 ^ 53 \<and> - 1074 \<le> (- 1 :: int) \<and> (- 1 :: int) \<le> 971
      \<and> (500::rat) / 1000 = of_int 1 * pow2 (- 1) \<and> (0::rat) < 500"
    by (simp add: pow2_def)
  have g: "unit_g \<noteq> unit_kg" "unit_ke \<noteq> unit_gongjin"
    using unit_distinct by auto
  from w side have ex: "fdiv (Finite 500) 1000 = Finite (500 / 1000)"
    by blast
  then have "fdiv (Finite 500) 1000 = Finite (1 / 2)"
    by simp
  with w side have nr: "\<bar>1 / 2 - 500 / 1000\<bar> \<le> pow2 (max (ilog2 (500 / 1000) - 52) (- 1074)) / 2"
    by blast
  from w hook_line2_match g have a: "parse_weight (ascii ''500'') unit_g =
       (case py_float (ascii ''500'') of Inl e \<Rightarrow> Inl e | Inr x \<Rightarrow> Inr (fdiv x 1000))"
    by blast
  from w capture_content_match g have b: "parse_weight (ascii ''2500'') unit_ke =
       (case py_float (ascii ''2500'') of Inl e \<Rightarrow> Inl e | Inr x \<Rightarrow> Inr (fdiv x 1000))"
    by blast
  from a b ex nr hook_line2_match capture_content_match weight_2500_ke hook_line2_parses
  show ?thesis
    by blast
qed

end
